theory Spec2Isabelle
  imports Main "HOL-Library.AList" "HOL-Library.Word"
begin

unbundle bit_operations_syntax

section \<open>The deterministic kernel of AgentSimLab (agentsimlab/kernel.py)\<close>

text \<open>
  The kernel is embedded function by function. Python objects that are mutated in place
  become values that are passed in and returned. A dictionary is an association list in
  insertion order: a lookup is \<open>map_of\<close>, an assignment \<open>d[k] = v\<close> is
  \<open>AList.update k v d\<close> (an existing key keeps its position, a new key goes to the end),
  as Python's \<open>dict\<close> does.

  An exception is a value. A call that raises returns \<open>Raised x s\<close>, where \<open>s\<close> is the
  state of the mutated object at the moment of the raise: Python rolls nothing back, so
  every assignment executed before the raise is visible in \<open>s\<close>.
\<close>

datatype exn =
    IndexError
  | ValueError string
  | KeyError string
  | AttributeError string
  | OtherError string

datatype 's outcome = Returned 's | Raised exn 's

fun state_of :: "'s outcome \<Rightarrow> 's" where
  "state_of (Returned s) = s"
| "state_of (Raised x s) = s"

fun raised :: "'s outcome \<Rightarrow> exn option" where
  "raised (Returned s) = None"
| "raised (Raised x s) = Some x"

subsection \<open>The standard library the kernel calls\<close>

text \<open>
  The dictionary that \<open>Kernel.snapshot\<close> pickles and \<open>Kernel.restore\<close> reads back. A blob
  that was not written by \<open>snapshot\<close> may decode to a dictionary that lacks a key, so
  every entry is optional: \<open>st_time\<close>, \<open>st_rng\<close> and \<open>st_phases\<close> are the entries
  \<open>'time'\<close>, \<open>'rng'\<close> and \<open>'phases'\<close>; \<open>master_state\<close> and \<open>st_streams\<close> are the entries
  \<open>'master_state'\<close> and \<open>'streams'\<close> of the inner dictionary. Entries of the wrong
  Python type are outside this typed model.
\<close>

record 't rng_state =
  master_state :: "'t option"
  st_streams :: "(string \<times> 't) list option"

record 't kernel_state =
  st_time :: "int option"
  st_rng :: "'t rng_state option"
  st_phases :: "string list option"

text \<open>
  \<open>random.Random\<close>, \<open>hashlib.sha256\<close> and \<open>pickle\<close> are not code of this repository.
  They are parameters of the model: \<open>'g\<close> is the internal state of a generator, \<open>'t\<close> the
  tuple that \<open>getstate\<close> returns, \<open>'v\<close> the floats that \<open>random\<close> draws and \<open>'b\<close> the
  byte strings of \<open>pickle\<close>. \<open>setstate\<close> may reject its argument, and the library alone
  decides what the generator holds after that; \<open>loads\<close> may reject a blob.
\<close>

record ('g, 't, 'v, 'b) pylib =
  Random :: "int \<Rightarrow> 'g"
  getrandbits64 :: "'g \<Rightarrow> 64 word \<times> 'g"
  random :: "'g \<Rightarrow> 'v \<times> 'g"
  getstate :: "'g \<Rightarrow> 't"
  setstate :: "'g \<Rightarrow> 't \<Rightarrow> 'g outcome"
  sha256 :: "string \<Rightarrow> 256 word"
  dumps :: "'t kernel_state \<Rightarrow> 'b"
  loads :: "'b \<Rightarrow> exn + 't kernel_state"

subsection \<open>RNGStream\<close>

record 'g rng_stream =
  seed :: int
  rng :: 'g

definition RNGStream :: "('g, 't, 'v, 'b) pylib \<Rightarrow> int \<Rightarrow> 'g rng_stream" where
  "RNGStream L sd = \<lparr>seed = sd, rng = Random L sd\<rparr>"

definition stream_random :: "('g, 't, 'v, 'b) pylib \<Rightarrow> 'g rng_stream \<Rightarrow> 'v \<times> 'g rng_stream" where
  "stream_random L s = (case random L (rng s) of (v, g) \<Rightarrow> (v, s\<lparr>rng := g\<rparr>))"

definition stream_get_state :: "('g, 't, 'v, 'b) pylib \<Rightarrow> 'g rng_stream \<Rightarrow> 't" where
  "stream_get_state L s = getstate L (rng s)"

definition stream_set_state ::
  "('g, 't, 'v, 'b) pylib \<Rightarrow> 'g rng_stream \<Rightarrow> 't \<Rightarrow> 'g rng_stream outcome" where
  "stream_set_state L s st =
     (case setstate L (rng s) st of
        Raised x g \<Rightarrow> Raised x (s\<lparr>rng := g\<rparr>)
      | Returned g \<Rightarrow> Returned (s\<lparr>rng := g\<rparr>))"

subsection \<open>RNGManager\<close>

text \<open>
  \<open>streams\<close> is the dictionary \<open>_streams\<close>. A stream object is reached only through this
  dictionary and is never replaced once stored (\<open>set_state\<close> mutates the stored object),
  so the handle that \<open>get_stream\<close> returns is modelled by the name itself.
\<close>

record 'g rng_manager =
  master_seed :: int
  master :: 'g
  streams :: "(string \<times> 'g rng_stream) list"

definition RNGManager :: "('g, 't, 'v, 'b) pylib \<Rightarrow> int \<Rightarrow> 'g rng_manager" where
  "RNGManager L sd = \<lparr>master_seed = sd, master = Random L sd, streams = []\<rparr>"

definition derive_seed ::
  "('g, 't, 'v, 'b) pylib \<Rightarrow> 'g rng_manager \<Rightarrow> string \<Rightarrow> int \<times> 'g rng_manager" where
  "derive_seed L m name =
     (case getrandbits64 L (master m) of (w, g) \<Rightarrow>
        (let drawn = uint w;
             h = uint (sha256 L name) AND (2 ^ 64 - 1);
             sd = (drawn XOR h) AND (2 ^ 63 - 1)
         in (sd, m\<lparr>master := g\<rparr>)))"

definition get_stream ::
  "('g, 't, 'v, 'b) pylib \<Rightarrow> 'g rng_manager \<Rightarrow> string \<Rightarrow> 'g rng_manager" where
  "get_stream L m name =
     (if name \<notin> set (map fst (streams m))
      then (case derive_seed L m name of (sd, m1) \<Rightarrow>
              m1\<lparr>streams := AList.update name (RNGStream L sd) (streams m1)\<rparr>)
      else m)"

text \<open>
  A draw through the handle \<open>name\<close>: \<open>get_stream(name).random()\<close> after the handle was
  obtained. \<open>None\<close> stands for a handle that was never obtained.
\<close>

definition handle_random ::
  "('g, 't, 'v, 'b) pylib \<Rightarrow> 'g rng_manager \<Rightarrow> string \<Rightarrow> ('v \<times> 'g rng_manager) option" where
  "handle_random L m name =
     (case map_of (streams m) name of
        None \<Rightarrow> None
      | Some s \<Rightarrow> (case stream_random L s of (v, s1) \<Rightarrow>
                    Some (v, m\<lparr>streams := AList.update name s1 (streams m)\<rparr>)))"

definition manager_get_state :: "('g, 't, 'v, 'b) pylib \<Rightarrow> 'g rng_manager \<Rightarrow> 't rng_state" where
  "manager_get_state L m =
     \<lparr>master_state = Some (getstate L (master m)),
      st_streams = Some (map (\<lambda>(name, s). (name, stream_get_state L s)) (streams m))\<rparr>"

fun set_streams ::
  "('g, 't, 'v, 'b) pylib \<Rightarrow> 'g rng_manager \<Rightarrow> (string \<times> 't) list \<Rightarrow> 'g rng_manager outcome" where
  "set_streams L m [] = Returned m"
| "set_streams L m ((name, st) # rest) =
     (case map_of (streams m) name of
        Some s \<Rightarrow>
          (case stream_set_state L s st of
             Raised x s1 \<Rightarrow> Raised x (m\<lparr>streams := AList.update name s1 (streams m)\<rparr>)
           | Returned s1 \<Rightarrow> set_streams L (m\<lparr>streams := AList.update name s1 (streams m)\<rparr>) rest)
      | None \<Rightarrow>
          (case stream_set_state L (RNGStream L 0) st of
             Raised x s1 \<Rightarrow> Raised x m
           | Returned s1 \<Rightarrow> set_streams L (m\<lparr>streams := AList.update name s1 (streams m)\<rparr>) rest))"

definition manager_set_state ::
  "('g, 't, 'v, 'b) pylib \<Rightarrow> 'g rng_manager \<Rightarrow> 't rng_state \<Rightarrow> 'g rng_manager outcome" where
  "manager_set_state L m state =
     (case master_state state of
        None \<Rightarrow> Raised (KeyError ''master_state'') m
      | Some t \<Rightarrow>
          (case setstate L (master m) t of
             Raised x g \<Rightarrow> Raised x (m\<lparr>master := g\<rparr>)
           | Returned g \<Rightarrow>
               set_streams L (m\<lparr>master := g\<rparr>)
                 (case st_streams state of None \<Rightarrow> [] | Some l \<Rightarrow> l)))"

subsection \<open>Kernel\<close>

text \<open>
  \<open>'e\<close> is the type of entity handles: two handles are equal exactly when they are the
  same object, so Python's \<open>entity is e\<close> is \<open>entity = e\<close>.
\<close>

record ('g, 'e) kernel =
  time :: int
  rng_manager :: "'g rng_manager"
  entities :: "(string \<times> 'e) list"
  phases :: "string list"
  phase_registrations :: "(string \<times> (string \<times> 'e) list) list"

definition Kernel ::
  "('g, 't, 'v, 'b) pylib \<Rightarrow> int \<Rightarrow> string list option \<Rightarrow> ('g, 'e) kernel" where
  "Kernel L sd phs =
     (let ps = (case phs of
                  None \<Rightarrow> [''perceive'', ''act'', ''commit'']
                | Some [] \<Rightarrow> [''perceive'', ''act'', ''commit'']
                | Some l \<Rightarrow> l)
      in \<lparr>time = 0,
          rng_manager = RNGManager L sd,
          entities = [],
          phases = ps,
          phase_registrations = fold (\<lambda>p d. AList.update p [] d) ps []\<rparr>)"

definition register ::
  "('g, 'e) kernel \<Rightarrow> string \<Rightarrow> 'e \<Rightarrow> string option \<Rightarrow> ('g, 'e) kernel outcome" where
  "register k entity_id entity phase =
     (case (case phase of
              Some p \<Rightarrow> Inr p
            | None \<Rightarrow> (case phases k of [] \<Rightarrow> Inl IndexError | p # _ \<Rightarrow> Inr p)) of
        Inl x \<Rightarrow> Raised x k
      | Inr p \<Rightarrow>
          if p \<notin> set (phases k) then Raised (ValueError (''Unknown phase: '' @ p)) k
          else if list_ex (\<lambda>(_, e). entity = e) (entities k) then Returned k
          else
            (let k1 = k\<lparr>entities := entities k @ [(entity_id, entity)]\<rparr>
             in case map_of (phase_registrations k1) p of
                  None \<Rightarrow> Raised (KeyError p) k1
                | Some l \<Rightarrow>
                    Returned (k1\<lparr>phase_registrations :=
                      AList.update p (l @ [(entity_id, entity)]) (phase_registrations k1)\<rparr>)))"

fun unregister_phases ::
  "string list \<Rightarrow> 'e \<Rightarrow> ('g, 'e) kernel \<Rightarrow> ('g, 'e) kernel outcome" where
  "unregister_phases [] entity k = Returned k"
| "unregister_phases (p # ps) entity k =
     (case map_of (phase_registrations k) p of
        None \<Rightarrow> Raised (KeyError p) k
      | Some l \<Rightarrow>
          unregister_phases ps entity
            (k\<lparr>phase_registrations :=
               AList.update p (filter (\<lambda>(i, e). e \<noteq> entity) l) (phase_registrations k)\<rparr>))"

definition unregister :: "('g, 'e) kernel \<Rightarrow> 'e \<Rightarrow> ('g, 'e) kernel outcome" where
  "unregister k entity =
     (let k1 = k\<lparr>entities := filter (\<lambda>(i, e). e \<noteq> entity) (entities k)\<rparr>
      in unregister_phases (phases k1) entity k1)"

definition get_rng ::
  "('g, 't, 'v, 'b) pylib \<Rightarrow> ('g, 'e) kernel \<Rightarrow> string \<Rightarrow> ('g, 'e) kernel" where
  "get_rng L k name = k\<lparr>rng_manager := get_stream L (rng_manager k) name\<rparr>"

text \<open>
  What an entity object offers to \<open>step\<close>: a callable attribute \<open>step_phase\<close>, a method
  \<open>step\<close>, both or neither. A hook receives the kernel, which it may change through any
  method, and changes the state \<open>'w\<close> that the entities own (the counter of a
  \<open>CounterAgent\<close>); it returns or raises. The table \<open>ent\<close> gives each handle its hooks.
\<close>

datatype 's hooks =
  Hooks (step_phase: "(string \<Rightarrow> 's \<Rightarrow> 's outcome) option") (step_hook: "('s \<Rightarrow> 's outcome) option")

definition invoke :: "('e \<Rightarrow> 's hooks) \<Rightarrow> 'e \<Rightarrow> string \<Rightarrow> 's \<Rightarrow> 's outcome" where
  "invoke ent entity phase s =
     (case step_phase (ent entity) of
        Some step_fn \<Rightarrow> step_fn phase s
      | None \<Rightarrow>
          (case step_hook (ent entity) of
             Some f \<Rightarrow> f s
           | None \<Rightarrow> Raised (AttributeError ''step'') s))"

text \<open>
  The inner loop of \<open>step\<close> runs over \<open>list(self._phase_registrations[phase])\<close>, a copy
  made when the phase starts: \<open>step_entities\<close> receives that copy, and the dictionary
  is read again, in the kernel as the hooks have left it, when the next phase starts.

  The outer loop, \<open>for phase in self._phases\<close>, iterates the list object that \<open>_phases\<close>
  names when the tick starts. No method of the kernel mutates that object: the
  constructor and \<open>restore\<close> bind \<open>_phases\<close> to a list, and a \<open>restore\<close> called by a hook
  binds it to a new one while the loop goes on over the old one. So \<open>step_phases\<close> runs
  over the value that \<open>phases\<close> has when the tick starts. A hook that changes the list
  object itself (through the private attribute, or through the caller's own reference
  to the list given to the constructor) changes what the running loop of the code
  visits; such a hook has no counterpart here, where a kernel is a value, and the
  statements about a whole tick are about hooks that do not do this.
\<close>

fun step_entities ::
  "('e \<Rightarrow> (('g, 'e) kernel \<times> 'w) hooks) \<Rightarrow> string \<Rightarrow> (string \<times> 'e) list \<Rightarrow>
     ('g, 'e) kernel \<times> 'w \<Rightarrow> (('g, 'e) kernel \<times> 'w) outcome" where
  "step_entities ent phase [] s = Returned s"
| "step_entities ent phase ((entity_id, entity) # rest) s =
     (case invoke ent entity phase s of
        Raised x s1 \<Rightarrow> Raised x s1
      | Returned s1 \<Rightarrow> step_entities ent phase rest s1)"

fun step_phases ::
  "('e \<Rightarrow> (('g, 'e) kernel \<times> 'w) hooks) \<Rightarrow> string list \<Rightarrow>
     ('g, 'e) kernel \<times> 'w \<Rightarrow> (('g, 'e) kernel \<times> 'w) outcome" where
  "step_phases ent [] s = Returned s"
| "step_phases ent (phase # ps) s =
     (case map_of (phase_registrations (fst s)) phase of
        None \<Rightarrow> Raised (KeyError phase) s
      | Some l \<Rightarrow>
          (case step_entities ent phase l s of
             Raised x s1 \<Rightarrow> Raised x s1
           | Returned s1 \<Rightarrow> step_phases ent ps s1))"

definition step ::
  "('e \<Rightarrow> (('g, 'e) kernel \<times> 'w) hooks) \<Rightarrow> ('g, 'e) kernel \<times> 'w \<Rightarrow>
     (('g, 'e) kernel \<times> 'w) outcome" where
  "step ent s =
     (case step_phases ent (phases (fst s)) s of
        Raised x s1 \<Rightarrow> Raised x s1
      | Returned (k, w) \<Rightarrow> Returned (k\<lparr>time := time k + 1\<rparr>, w))"

fun run_loop ::
  "('e \<Rightarrow> (('g, 'e) kernel \<times> 'w) hooks) \<Rightarrow> nat \<Rightarrow> ('g, 'e) kernel \<times> 'w \<Rightarrow>
     (('g, 'e) kernel \<times> 'w) outcome" where
  "run_loop ent 0 s = Returned s"
| "run_loop ent (Suc n) s =
     (case step ent s of
        Raised x s1 \<Rightarrow> Raised x s1
      | Returned s1 \<Rightarrow> run_loop ent n s1)"

definition run ::
  "('e \<Rightarrow> (('g, 'e) kernel \<times> 'w) hooks) \<Rightarrow> int \<Rightarrow> ('g, 'e) kernel \<times> 'w \<Rightarrow>
     (('g, 'e) kernel \<times> 'w) outcome" where
  "run ent steps s = run_loop ent (nat steps) s"

definition snapshot :: "('g, 't, 'v, 'b) pylib \<Rightarrow> ('g, 'e) kernel \<Rightarrow> 'b" where
  "snapshot L k =
     dumps L \<lparr>st_time = Some (time k),
              st_rng = Some (manager_get_state L (rng_manager k)),
              st_phases = Some (phases k)\<rparr>"

definition restore ::
  "('g, 't, 'v, 'b) pylib \<Rightarrow> ('g, 'e) kernel \<Rightarrow> 'b \<Rightarrow> ('g, 'e) kernel outcome" where
  "restore L k blob =
     (case loads L blob of
        Inl x \<Rightarrow> Raised x k
      | Inr state \<Rightarrow>
          (case st_time state of
             None \<Rightarrow> Raised (KeyError ''time'') k
           | Some t \<Rightarrow>
               (let k1 = k\<lparr>time := t\<rparr>;
                    k2 = k1\<lparr>phases := (case st_phases state of None \<Rightarrow> phases k1 | Some ps \<Rightarrow> ps)\<rparr>
                in case st_rng state of
                     None \<Rightarrow> Raised (KeyError ''rng'') k2
                   | Some r \<Rightarrow>
                       (case manager_set_state L (rng_manager k2) r of
                          Raised x m \<Rightarrow> Raised x (k2\<lparr>rng_manager := m\<rparr>)
                        | Returned m \<Rightarrow> Returned (k2\<lparr>rng_manager := m\<rparr>)))))"

subsection \<open>A small instance of the library\<close>

text \<open>
  The theorems below hold for every library \<open>L\<close>. To evaluate the model on concrete
  inputs, \<open>lib0\<close> is a small instance: a generator is a counter \<open>g\<close>, its state token
  is \<open>g + 1\<close>, \<open>setstate\<close> rejects the token 0, and a blob is either garbage (\<open>None\<close>,
  which \<open>loads\<close> rejects) or the pickled dictionary.
\<close>

definition lib0 :: "(nat, nat, nat, nat kernel_state option) pylib" where
  "lib0 =
     \<lparr>Random = (\<lambda>sd. nat \<bar>sd\<bar>),
      getrandbits64 = (\<lambda>g. (of_nat g, Suc g)),
      random = (\<lambda>g. (g, Suc g)),
      getstate = (\<lambda>g. Suc g),
      setstate = (\<lambda>g t. if t = 0 then Raised (ValueError ''state'') g else Returned (t - 1)),
      sha256 = (\<lambda>name. of_nat (length name)),
      dumps = (\<lambda>d. Some d),
      loads = (\<lambda>b. case b of None \<Rightarrow> Inl (OtherError ''UnpicklingError'') | Some d \<Rightarrow> Inr d)\<rparr>"

definition kernel0 :: "(nat, nat) kernel" where
  "kernel0 = Kernel lib0 0 None"

subsection \<open>The order of invocation, as the specification words it\<close>

text \<open>
  The order the specification gives for one tick: phases in declared order, and within a
  phase the entities in registration order. \<open>order_of\<close> reads it off a registry;
  \<open>declared_order\<close> is the order for the registry a kernel holds. These two are written
  from the specification, to be compared with what \<open>step\<close> does.
\<close>

definition order_of ::
  "(string \<times> (string \<times> 'e) list) list \<Rightarrow> string list \<Rightarrow> ('e \<times> string) list" where
  "order_of regs ps =
     concat (map (\<lambda>ph. case map_of regs ph of
                          None \<Rightarrow> []
                        | Some l \<Rightarrow> map (\<lambda>(i, e). (e, ph)) l) ps)"

definition declared_order :: "('g, 'e) kernel \<Rightarrow> ('e \<times> string) list" where
  "declared_order k = order_of (phase_registrations k) (phases k)"

subsection \<open>Test entities and test kernels\<close>

text \<open>
  \<open>log_ent\<close> is an entity with a \<open>step_phase\<close> hook that appends its own handle and the
  phase to a log and touches nothing else. \<open>kernel_ab\<close> is the kernel of the
  specification's phase-ordering test: default phases, entity \<open>A\<close> (handle 1) registered
  in \<open>commit\<close>, then entity \<open>B\<close> (handle 2) registered in \<open>perceive\<close>.
\<close>

definition log_ent :: "nat \<Rightarrow> ((nat, nat) kernel \<times> (nat \<times> string) list) hooks" where
  "log_ent e = Hooks (Some (\<lambda>ph (k, w). Returned (k, w @ [(e, ph)]))) None"

definition kernel_ab :: "(nat, nat) kernel" where
  "kernel_ab =
     state_of (register (state_of (register kernel0 ''A'' 1 (Some ''commit'')))
       ''B'' 2 (Some ''perceive''))"

text \<open>
  \<open>kernel_streams\<close> is \<open>kernel_ab\<close> after the streams \<open>a0\<close> and \<open>zz\<close> were requested.
  \<open>blob7\<close> is a well-formed snapshot that names the streams \<open>a0\<close> and \<open>new\<close>.
  \<open>blob_no_rng\<close> is \<open>pickle.dumps({'time': 5})\<close>: a valid pickle of a dictionary that
  has no entry \<open>'rng'\<close>. \<open>blob_truncated\<close> is
  \<open>pickle.dumps({'time': 5, 'rng': {'master_state': 3}})\<close>, which lacks \<open>'phases'\<close> and
  \<open>'streams'\<close>.
\<close>

definition kernel_streams :: "(nat, nat) kernel" where
  "kernel_streams = get_rng lib0 (get_rng lib0 kernel_ab ''a0'') ''zz''"

definition blob7 :: "nat kernel_state option" where
  "blob7 = Some \<lparr>st_time = Some 7,
     st_rng = Some \<lparr>master_state = Some 40, st_streams = Some [(''a0'', 50), (''new'', 60)]\<rparr>,
     st_phases = Some [''act'']\<rparr>"

definition blob_no_rng :: "nat kernel_state option" where
  "blob_no_rng = Some \<lparr>st_time = Some 5, st_rng = None, st_phases = None\<rparr>"

definition blob_truncated :: "nat kernel_state option" where
  "blob_truncated = Some \<lparr>st_time = Some 5,
     st_rng = Some \<lparr>master_state = Some 3, st_streams = None\<rparr>, st_phases = None\<rparr>"

text \<open>
  \<open>fail_ent\<close>: entity 2 has only a \<open>step\<close> method, which logs and then raises; every
  other entity is a \<open>log_ent\<close>. \<open>kernel_abc\<close> has \<open>A\<close> (handle 1) in \<open>perceive\<close> and
  \<open>B\<close>, \<open>C\<close> (handles 2, 3) in \<open>act\<close>.
\<close>

definition fail_ent :: "nat \<Rightarrow> ((nat, nat) kernel \<times> (nat \<times> string) list) hooks" where
  "fail_ent e =
     (if e = 2 then Hooks None (Some (\<lambda>(k, w). Raised (OtherError ''boom'') (k, w @ [(e, ''raised'')])))
      else log_ent e)"

definition kernel_abc :: "(nat, nat) kernel" where
  "kernel_abc =
     state_of (register (state_of (register (state_of (register kernel0
       ''A'' 1 (Some ''perceive''))) ''B'' 2 (Some ''act''))) ''C'' 3 (Some ''act''))"

subsection \<open>A consistent registry\<close>

text \<open>
  What the constructor establishes when the phase names are pairwise distinct, and what
  \<open>register\<close> keeps: the dictionary of phase lists has exactly the declared phases as
  keys, in order; no handle occurs twice in the entity list or in the phase lists; and
  the phase lists together hold the pairs of the entity list.
\<close>

definition registry_ok :: "('g, 'e) kernel \<Rightarrow> bool" where
  "registry_ok k \<longleftrightarrow>
     distinct (phases k)
     \<and> map fst (phase_registrations k) = phases k
     \<and> distinct (map snd (entities k))
     \<and> distinct (map snd (concat (map snd (phase_registrations k))))
     \<and> set (concat (map snd (phase_registrations k))) = set (entities k)"

text \<open>
  \<open>kernel_pp\<close> is \<open>Kernel(seed=0, phases=['p', 'p'])\<close> after \<open>register('a', e)\<close> for an
  entity with handle 1; \<open>kernel_a\<close> is the default kernel after the same registration.
\<close>

definition kernel_pp :: "(nat, nat) kernel" where
  "kernel_pp = state_of (register (Kernel lib0 0 (Some [''p'', ''p''])) ''a'' 1 None)"

definition kernel_a :: "(nat, nat) kernel" where
  "kernel_a = state_of (register kernel0 ''a'' 1 None)"

text \<open>
  \<open>reg_ent\<close>: entity 1 has a \<open>step_phase\<close> hook that registers two new entities while
  the tick is under way, \<open>D\<close> (handle 4) in the phase \<open>act\<close> and \<open>E\<close> (handle 5) in the
  phase that is running, and then logs itself; every other entity is a \<open>log_ent\<close>.
  \<open>kernel_a_grown\<close> is \<open>kernel_a\<close> after these two registrations were made in
  \<open>perceive\<close>.
\<close>

definition reg_ent :: "nat \<Rightarrow> ((nat, nat) kernel \<times> (nat \<times> string) list) hooks" where
  "reg_ent e =
     (if e = 1
      then Hooks (Some (\<lambda>ph (k, w).
             case register k ''D'' 4 (Some ''act'') of
               Raised x k1 \<Rightarrow> Raised x (k1, w)
             | Returned k1 \<Rightarrow>
                 (case register k1 ''E'' 5 (Some ph) of
                    Raised x k2 \<Rightarrow> Raised x (k2, w)
                  | Returned k2 \<Rightarrow> Returned (k2, w @ [(e, ph)])))) None
      else log_ent e)"

definition kernel_a_grown :: "(nat, nat) kernel" where
  "kernel_a_grown =
     state_of (register (state_of (register kernel_a ''D'' 4 (Some ''act'')))
       ''E'' 5 (Some ''perceive''))"

text \<open>
  \<open>kernel_pqp\<close> is \<open>Kernel(seed=0, phases=['p', 'q', 'p'])\<close> with entity \<open>A\<close> (handle 1)
  registered in \<open>p\<close> and entity \<open>B\<close> (handle 2) registered in \<open>q\<close>.
\<close>

definition kernel_pqp :: "(nat, nat) kernel" where
  "kernel_pqp =
     state_of (register (state_of (register (Kernel lib0 0 (Some [''p'', ''q'', ''p'']))
       ''A'' 1 (Some ''p''))) ''B'' 2 (Some ''q''))"

subsection \<open>Two runs side by side\<close>

text \<open>
  Two outcomes agree up to a relation on states: both return or both raise the same
  exception, in related states.
\<close>

fun outcome_rel :: "('s \<Rightarrow> 't \<Rightarrow> bool) \<Rightarrow> 's outcome \<Rightarrow> 't outcome \<Rightarrow> bool" where
  "outcome_rel R (Returned s) (Returned t) = R s t"
| "outcome_rel R (Raised x s) (Raised y t) = (x = y \<and> R s t)"
| "outcome_rel R (Returned s) (Raised y t) = False"
| "outcome_rel R (Raised x s) (Returned t) = False"

text \<open>
  The positions of a manager: the state of the master generator and, for every stream
  in dictionary order, its name and the state of its generator. The seed fields are
  left out: after construction nothing in the kernel reads them.
\<close>

definition positions :: "'g rng_manager \<Rightarrow> 'g \<times> (string \<times> 'g) list" where
  "positions m = (master m, map (\<lambda>(name, s). (name, rng s)) (streams m))"

definition same_positions :: "'g rng_manager \<Rightarrow> 'g rng_manager \<Rightarrow> bool" where
  "same_positions m1 m2 \<longleftrightarrow> positions m1 = positions m2"

text \<open>
  Two kernels that differ only in the identity of their entity objects: \<open>f\<close> maps the
  handles of the first to the handles of the second, time and phase list are equal, and
  the managers are related by \<open>M\<close> (equality, or \<open>same_positions\<close>). Two states are
  related when their kernels are and the entity-owned parts are equal.
\<close>

definition kernel_rel ::
  "('g rng_manager \<Rightarrow> 'g rng_manager \<Rightarrow> bool) \<Rightarrow> ('e1 \<Rightarrow> 'e2) \<Rightarrow>
     ('g, 'e1) kernel \<Rightarrow> ('g, 'e2) kernel \<Rightarrow> bool" where
  "kernel_rel M f k1 k2 \<longleftrightarrow>
     time k1 = time k2
     \<and> phases k1 = phases k2
     \<and> M (rng_manager k1) (rng_manager k2)
     \<and> entities k2 = map (apsnd f) (entities k1)
     \<and> phase_registrations k2 = map (apsnd (map (apsnd f))) (phase_registrations k1)"

definition state_rel ::
  "('g rng_manager \<Rightarrow> 'g rng_manager \<Rightarrow> bool) \<Rightarrow> ('e1 \<Rightarrow> 'e2) \<Rightarrow>
     ('g, 'e1) kernel \<times> 'w \<Rightarrow> ('g, 'e2) kernel \<times> 'w \<Rightarrow> bool" where
  "state_rel M f s1 s2 \<longleftrightarrow> kernel_rel M f (fst s1) (fst s2) \<and> snd s1 = snd s2"

text \<open>
  The scenario of the reproducibility test, as \<open>run_sequence\<close> in
  \<open>tests/test_kernel_repro.py\<close> runs it: construct the kernel from a seed and a phase
  list, make the registrations in order (the first one that raises ends the scenario),
  and run \<open>n\<close> ticks.
\<close>

fun register_all ::
  "('g, 'e) kernel \<Rightarrow> (string \<times> 'e \<times> string option) list \<Rightarrow> ('g, 'e) kernel outcome" where
  "register_all k [] = Returned k"
| "register_all k ((entity_id, entity, phase) # rest) =
     (case register k entity_id entity phase of
        Raised x k1 \<Rightarrow> Raised x k1
      | Returned k1 \<Rightarrow> register_all k1 rest)"

definition scenario ::
  "('g, 't, 'v, 'b) pylib \<Rightarrow> int \<Rightarrow> string list option \<Rightarrow>
     (string \<times> 'e \<times> string option) list \<Rightarrow> ('e \<Rightarrow> (('g, 'e) kernel \<times> 'w) hooks) \<Rightarrow>
     int \<Rightarrow> 'w \<Rightarrow> (('g, 'e) kernel \<times> 'w) outcome" where
  "scenario L sd phs regs ent n w =
     (case register_all (Kernel L sd phs) regs of
        Raised x k \<Rightarrow> Raised x (k, w)
      | Returned k \<Rightarrow> run ent n (k, w))"

text \<open>
  The next \<open>j\<close> values of the stream \<open>name\<close>: \<open>get_rng(name).random()\<close>, \<open>j\<close> times.
\<close>

fun draws :: "('g, 't, 'v, 'b) pylib \<Rightarrow> 'g rng_manager \<Rightarrow> string \<Rightarrow> nat \<Rightarrow> 'v list" where
  "draws L m name 0 = []"
| "draws L m name (Suc n) =
     (case handle_random L (get_stream L m name) name of
        None \<Rightarrow> []
      | Some (v, m1) \<Rightarrow> v # draws L m1 name n)"

text \<open>
  \<open>CounterAgent\<close> of \<open>agentsimlab/agent.py\<close>: \<open>step_phase\<close> calls \<open>step\<close>, \<open>step\<close> calls
  \<open>act\<close>, and \<open>act\<close> requests the stream named by the agent's id, draws once and adds the
  value to the agent's counter. The counters are kept by agent id (each agent of a run
  has an id of its own); an agent without an entry has the counter 0. The branch
  \<open>None\<close> of \<open>act\<close> is never taken: the stream was just requested.
\<close>

definition act ::
  "('g, 't, 'v :: {zero, plus}, 'b) pylib \<Rightarrow> string \<Rightarrow>
     ('g, 'e) kernel \<times> (string \<times> 'v) list \<Rightarrow> (('g, 'e) kernel \<times> (string \<times> 'v) list) outcome" where
  "act L agent_id s =
     (case s of (k, w) \<Rightarrow>
        (let k1 = get_rng L k agent_id
         in case handle_random L (rng_manager k1) agent_id of
              None \<Rightarrow> Raised (KeyError agent_id) (k1, w)
            | Some (v, m) \<Rightarrow>
                Returned (k1\<lparr>rng_manager := m\<rparr>,
                  AList.update agent_id ((case map_of w agent_id of None \<Rightarrow> 0 | Some c \<Rightarrow> c) + v) w)))"

definition CounterAgent ::
  "('g, 't, 'v :: {zero, plus}, 'b) pylib \<Rightarrow> string \<Rightarrow>
     (('g, 'e) kernel \<times> (string \<times> 'v) list) hooks" where
  "CounterAgent L agent_id = Hooks (Some (\<lambda>phase. act L agent_id)) (Some (act L agent_id))"

text \<open>
  Two runs of the same experiment with different entity objects: handles 1 and 2 in the
  first run, 11 and 12 in the second, agents \<open>a0\<close> and \<open>a1\<close> in both, seed 123, default
  phases, two ticks.
\<close>

definition agents1 :: "nat \<Rightarrow> ((nat, nat) kernel \<times> (string \<times> nat) list) hooks" where
  "agents1 e = CounterAgent lib0 (if e = 1 then ''a0'' else ''a1'')"

definition agents2 :: "nat \<Rightarrow> ((nat, nat) kernel \<times> (string \<times> nat) list) hooks" where
  "agents2 e = CounterAgent lib0 (if e = 11 then ''a0'' else ''a1'')"

definition run1 :: "((nat, nat) kernel \<times> (string \<times> nat) list) outcome" where
  "run1 = scenario lib0 123 None [(''a0'', 1, None), (''a1'', 2, None)] agents1 2 []"

definition run2 :: "((nat, nat) kernel \<times> (string \<times> nat) list) outcome" where
  "run2 = scenario lib0 123 None [(''a0'', 11, None), (''a1'', 12, None)] agents2 2 []"

text \<open>
  The kernels of a snapshot round trip: \<open>kernel_after\<close> is the kernel of the first run
  after its two ticks; \<open>kernel_fresh\<close> is a kernel constructed with another seed (999)
  in which the agents were registered again, in the same order, as new objects;
  \<open>kernel_restored\<close> is \<open>kernel_fresh\<close> after the snapshot of \<open>kernel_after\<close> was restored
  into it.
\<close>

definition kernel_after :: "(nat, nat) kernel" where
  "kernel_after = fst (state_of run1)"

definition kernel_fresh :: "(nat, nat) kernel" where
  "kernel_fresh =
     state_of (register_all (Kernel lib0 999 None) [(''a0'', 11, None), (''a1'', 12, None)])"

definition kernel_restored :: "(nat, nat) kernel" where
  "kernel_restored = state_of (restore lib0 kernel_fresh (snapshot lib0 kernel_after))"

section \<open>Properties\<close>

subsection \<open>Evaluation of the small instance\<close>

lemma lib0_simps:
  "Random lib0 sd = nat \<bar>sd\<bar>"
  "getrandbits64 lib0 g = (of_nat g, Suc g)"
  "random lib0 g = (g, Suc g)"
  "getstate lib0 g = Suc g"
  "setstate lib0 g t = (if t = 0 then Raised (ValueError ''state'') g else Returned (t - 1))"
  "sha256 lib0 name = of_nat (length name)"
  "dumps lib0 d = Some d"
  "loads lib0 None = Inl (OtherError ''UnpicklingError'')"
  "loads lib0 (Some d) = Inr d"
  by (simp_all add: lib0_def)

lemma kernel0_eq:
  "kernel0 = \<lparr>time = 0, rng_manager = \<lparr>master_seed = 0, master = 0, streams = []\<rparr>,
     entities = [], phases = [''perceive'', ''act'', ''commit''],
     phase_registrations = [(''perceive'', []), (''act'', []), (''commit'', [])]\<rparr>"
  by (simp add: kernel0_def Kernel_def RNGManager_def lib0_simps)

lemma kernel_a_eq:
  "kernel_a = \<lparr>time = 0, rng_manager = \<lparr>master_seed = 0, master = 0, streams = []\<rparr>,
     entities = [(''a'', 1)], phases = [''perceive'', ''act'', ''commit''],
     phase_registrations = [(''perceive'', [(''a'', 1)]), (''act'', []), (''commit'', [])]\<rparr>"
  by (simp add: kernel_a_def kernel0_eq register_def)

lemma kernel_ab_eq:
  "kernel_ab = \<lparr>time = 0, rng_manager = \<lparr>master_seed = 0, master = 0, streams = []\<rparr>,
     entities = [(''A'', 1), (''B'', 2)], phases = [''perceive'', ''act'', ''commit''],
     phase_registrations = [(''perceive'', [(''B'', 2)]), (''act'', []), (''commit'', [(''A'', 1)])]\<rparr>"
  by (simp add: kernel_ab_def kernel0_eq register_def)

subsection \<open>Dictionaries as association lists\<close>

lemma keys_update: "fst ` set (AList.update k v al) = insert k (fst ` set al)"
  by (simp add: dom_update)

lemma update_append_new: "k \<notin> fst ` set al \<Longrightarrow> AList.update k v al = al @ [(k, v)]"
  by (induction al) auto

subsection \<open>Registration\<close>

text \<open>
  C4. A registration that names a phase outside the declared phase list raises at once
  (the code raises \<open>ValueError("Unknown phase: ...")\<close>, its unknown-phase error) and the
  kernel it leaves is the kernel it found: the entity list and every phase list are
  unchanged, so an entity that was absent is still absent.
\<close>

theorem register_unknown_phase:
  assumes "p \<notin> set (phases k)"
  shows "register k entity_id entity (Some p) = Raised (ValueError (''Unknown phase: '' @ p)) k"
  using assms by (simp add: register_def)

theorem register_unknown_phase_witness:
  "''nonexistent'' \<notin> set (phases kernel0)
   \<and> register kernel0 ''a'' 1 (Some ''nonexistent'')
       = Raised (ValueError ''Unknown phase: nonexistent'') kernel0
   \<and> entities kernel0 = [] \<and> concat (map snd (phase_registrations kernel0)) = []"
proof -
  have h: "''nonexistent'' \<notin> set (phases kernel0)"
    by (simp add: kernel0_eq)
  have c: "register kernel0 ''a'' 1 (Some ''nonexistent'')
             = Raised (ValueError ''Unknown phase: nonexistent'') kernel0"
    using register_unknown_phase[OF h, of "''a''" 1] by simp
  show ?thesis using h c by (simp add: kernel0_eq)
qed

text \<open>
  C10. The phase check comes before the duplicate check: for a handle that is already
  registered, a phase outside the declared list still raises the unknown-phase error;
  the call is a silent no-op only when the phase given is declared, or when none is
  given and the phase list has a first element.
\<close>

theorem register_phase_check_precedes_duplicate_check:
  assumes "list_ex (\<lambda>(_, e). entity = e) (entities k)"
  shows "(p \<notin> set (phases k) \<longrightarrow>
            register k entity_id entity (Some p) = Raised (ValueError (''Unknown phase: '' @ p)) k)
       \<and> (p \<in> set (phases k) \<longrightarrow> register k entity_id entity (Some p) = Returned k)
       \<and> (phases k \<noteq> [] \<longrightarrow> register k entity_id entity None = Returned k)"
  using assms by (cases "phases k") (simp_all add: register_def)

theorem register_phase_check_precedes_duplicate_check_witness:
  "list_ex (\<lambda>(_, e). (1::nat) = e) (entities kernel_a)
   \<and> ''nonexistent'' \<notin> set (phases kernel_a)
   \<and> register kernel_a ''b'' 1 (Some ''nonexistent'')
       = Raised (ValueError ''Unknown phase: nonexistent'') kernel_a
   \<and> ''act'' \<in> set (phases kernel_a)
   \<and> register kernel_a ''b'' 1 (Some ''act'') = Returned kernel_a
   \<and> phases kernel_a \<noteq> []
   \<and> register kernel_a ''b'' 1 None = Returned kernel_a"
proof -
  have h: "list_ex (\<lambda>(_, e). (1::nat) = e) (entities kernel_a)"
    by (simp add: kernel_a_eq)
  have ph: "phases kernel_a = [''perceive'', ''act'', ''commit'']"
    by (simp add: kernel_a_eq)
  have p1: "''nonexistent'' \<notin> set (phases kernel_a)"
    and p2: "''act'' \<in> set (phases kernel_a)"
    and p3: "phases kernel_a \<noteq> []"
    by (simp_all add: ph)
  have c1: "register kernel_a ''b'' 1 (Some ''nonexistent'')
              = Raised (ValueError ''Unknown phase: nonexistent'') kernel_a"
    using register_phase_check_precedes_duplicate_check[OF h, of "''nonexistent''" "''b''"] p1
    by simp
  have c2: "register kernel_a ''b'' 1 (Some ''act'') = Returned kernel_a"
    using register_phase_check_precedes_duplicate_check[OF h, of "''act''" "''b''"] p2
    by simp
  have c3: "register kernel_a ''b'' 1 None = Returned kernel_a"
    using register_phase_check_precedes_duplicate_check[OF h, of "''act''" "''b''"] p3
    by simp
  show ?thesis
    by (intro conjI h p1 c1 p2 c2 p3 c3)
qed

subsection \<open>Derivation of streams\<close>



subsection \<open>One tick, split at any point\<close>

lemma step_entities_append:
  "step_entities ent ph (pre @ post) s =
     (case step_entities ent ph pre s of
        Raised x s1 \<Rightarrow> Raised x s1
      | Returned s1 \<Rightarrow> step_entities ent ph post s1)"
  by (induction pre arbitrary: s) (auto split: outcome.splits)

lemma step_phases_append:
  "step_phases ent (pps @ ps) s =
     (case step_phases ent pps s of
        Raised x s1 \<Rightarrow> Raised x s1
      | Returned s1 \<Rightarrow> step_phases ent ps s1)"
  by (induction pps arbitrary: s) (auto split: outcome.splits option.splits)

subsection \<open>What a tick keeps and what it logs\<close>

lemma step_entities_log:
  assumes log: "\<And>e ph s s'. invoke ent e ph s = Returned s' \<Longrightarrow> lg (snd s') = lg (snd s) @ [(e, ph)]"
  shows "step_entities ent ph regs s = Returned s' \<Longrightarrow>
           lg (snd s') = lg (snd s) @ map (\<lambda>(i, e). (e, ph)) regs"
proof (induction regs arbitrary: s)
  case Nil
  then show ?case by simp
next
  case (Cons a regs)
  obtain i e where a: "a = (i, e)" by (cases a)
  from Cons.prems obtain s1 where s1: "invoke ent e ph s = Returned s1"
    and rest: "step_entities ent ph regs s1 = Returned s'"
    by (auto simp: a split: outcome.splits)
  from log[OF s1] Cons.IH[OF rest] show ?case by (simp add: a)
qed

lemma step_entities_frame:
  assumes fr: "\<And>e ph s s'. invoke ent e ph s = Returned s' \<Longrightarrow> Q (fst s') = Q (fst s)"
  shows "step_entities ent ph regs s = Returned s' \<Longrightarrow> Q (fst s') = Q (fst s)"
proof (induction regs arbitrary: s)
  case Nil
  then show ?case by simp
next
  case (Cons a regs)
  obtain i e where a: "a = (i, e)" by (cases a)
  from Cons.prems obtain s1 where s1: "invoke ent e ph s = Returned s1"
    and rest: "step_entities ent ph regs s1 = Returned s'"
    by (auto simp: a split: outcome.splits)
  from fr[OF s1] Cons.IH[OF rest] show ?case by simp
qed

lemma step_phases_frame:
  assumes fr: "\<And>e ph s s'. invoke ent e ph s = Returned s' \<Longrightarrow> Q (fst s') = Q (fst s)"
  shows "step_phases ent ps s = Returned s' \<Longrightarrow> Q (fst s') = Q (fst s)"
proof (induction ps arbitrary: s)
  case Nil
  then show ?case by simp
next
  case (Cons ph ps)
  from Cons.prems obtain l s1 where l: "map_of (phase_registrations (fst s)) ph = Some l"
    and s1: "step_entities ent ph l s = Returned s1"
    and rest: "step_phases ent ps s1 = Returned s'"
    by (auto split: outcome.splits option.splits)
  from step_entities_frame[of ent Q, OF fr s1] Cons.IH[OF rest] show ?case by simp
qed

lemma step_phases_log:
  assumes log: "\<And>e ph s s'. invoke ent e ph s = Returned s' \<Longrightarrow> lg (snd s') = lg (snd s) @ [(e, ph)]"
      and fr: "\<And>e ph s s'. invoke ent e ph s = Returned s' \<Longrightarrow>
                 phase_registrations (fst s') = phase_registrations (fst s)"
  shows "step_phases ent ps s = Returned s' \<Longrightarrow>
           lg (snd s') = lg (snd s) @ order_of (phase_registrations (fst s)) ps"
proof (induction ps arbitrary: s)
  case Nil
  then show ?case by (simp add: order_of_def)
next
  case (Cons ph ps)
  from Cons.prems obtain l s1 where l: "map_of (phase_registrations (fst s)) ph = Some l"
    and s1: "step_entities ent ph l s = Returned s1"
    and rest: "step_phases ent ps s1 = Returned s'"
    by (auto split: outcome.splits option.splits)
  have same: "phase_registrations (fst s1) = phase_registrations (fst s)"
    using step_entities_frame[of ent phase_registrations, OF fr s1] .
  from step_entities_log[of ent lg, OF log s1] Cons.IH[OF rest] l same
  show ?case by (simp add: order_of_def)
qed

subsection \<open>What importing a state leaves alone\<close>

lemma set_streams_frame:
  "master (state_of (set_streams L m ss)) = master m
   \<and> master_seed (state_of (set_streams L m ss)) = master_seed m
   \<and> (name \<notin> fst ` set ss \<longrightarrow>
        map_of (streams (state_of (set_streams L m ss))) name = map_of (streams m) name)"
proof (induction ss arbitrary: m)
  case Nil
  then show ?case by simp
next
  case (Cons a ss)
  obtain n st where a: "a = (n, st)" by (cases a)
  show ?case
    unfolding a
    by (auto simp: Cons.IH update_conv' split: option.splits outcome.splits)
qed

lemma manager_set_state_frame:
  "master_seed (state_of (manager_set_state L m r)) = master_seed m
   \<and> (name \<notin> fst ` set (case st_streams r of None \<Rightarrow> [] | Some l \<Rightarrow> l) \<longrightarrow>
        map_of (streams (state_of (manager_set_state L m r))) name = map_of (streams m) name)"
  using set_streams_frame[of L _ _ name]
  by (auto simp: manager_set_state_def split: option.splits outcome.splits)

lemma kernel_streams_eq:
  "kernel_streams = \<lparr>time = 0,
     rng_manager = \<lparr>master_seed = 0, master = 2,
       streams = [(''a0'', \<lparr>seed = 2, rng = 2\<rparr>), (''zz'', \<lparr>seed = 3, rng = 3\<rparr>)]\<rparr>,
     entities = [(''A'', 1), (''B'', 2)], phases = [''perceive'', ''act'', ''commit''],
     phase_registrations = [(''perceive'', [(''B'', 2)]), (''act'', []), (''commit'', [(''A'', 1)])]\<rparr>"
  by (simp add: kernel_streams_def kernel_ab_eq get_rng_def get_stream_def derive_seed_def
      RNGStream_def lib0_simps)

lemma restore_blob7:
  "restore lib0 kernel_streams blob7 = Returned \<lparr>time = 7,
     rng_manager = \<lparr>master_seed = 0, master = 39,
       streams = [(''a0'', \<lparr>seed = 2, rng = 49\<rparr>), (''zz'', \<lparr>seed = 3, rng = 3\<rparr>),
                  (''new'', \<lparr>seed = 0, rng = 59\<rparr>)]\<rparr>,
     entities = [(''A'', 1), (''B'', 2)], phases = [''act''],
     phase_registrations = [(''perceive'', [(''B'', 2)]), (''act'', []), (''commit'', [(''A'', 1)])]\<rparr>"
  by (simp add: kernel_streams_eq blob7_def restore_def manager_set_state_def
      stream_set_state_def RNGStream_def lib0_simps)

lemma set_streams_step:
  assumes "set_streams L m ((n, st) # ss) = Returned m1"
  shows "\<exists>s1. stream_set_state L (case map_of (streams m) n of Some s \<Rightarrow> s | None \<Rightarrow> RNGStream L 0) st
              = Returned s1
           \<and> set_streams L (m\<lparr>streams := AList.update n s1 (streams m)\<rparr>) ss = Returned m1"
  using assms by (auto split: option.splits outcome.splits)

lemma set_streams_effect:
  "distinct (map fst ss) \<Longrightarrow> set_streams L m ss = Returned m1 \<Longrightarrow> (name, tok) \<in> set ss \<Longrightarrow>
     \<exists>s1. stream_set_state L (case map_of (streams m) name of Some s \<Rightarrow> s | None \<Rightarrow> RNGStream L 0) tok
            = Returned s1
         \<and> map_of (streams m1) name = Some s1"
proof (induction ss arbitrary: m)
  case Nil
  then show ?case by simp
next
  case (Cons a ss)
  obtain n st where a: "a = (n, st)" by (cases a)
  from set_streams_step[OF Cons.prems(2)[unfolded a]] obtain s1 where
    s1: "stream_set_state L (case map_of (streams m) n of Some s \<Rightarrow> s | None \<Rightarrow> RNGStream L 0) st
           = Returned s1"
    and rest: "set_streams L (m\<lparr>streams := AList.update n s1 (streams m)\<rparr>) ss = Returned m1"
    by blast
  let ?m' = "m\<lparr>streams := AList.update n s1 (streams m)\<rparr>"
  from Cons.prems(1) have nn: "n \<notin> fst ` set ss" and d: "distinct (map fst ss)"
    by (auto simp: a)
  show ?case
  proof (cases "(name, tok) = (n, st)")
    case True
    have "map_of (streams m1) n = map_of (streams ?m') n"
      using set_streams_frame[of L ?m' ss n] rest nn by simp
    then have "map_of (streams m1) n = Some s1"
      by (simp add: update_conv')
    with s1 True show ?thesis by auto
  next
    case False
    with Cons.prems(3) have mem: "(name, tok) \<in> set ss" by (auto simp: a)
    with nn have ne: "name \<noteq> n" by force
    from Cons.IH[OF d rest mem] ne show ?thesis
      by (simp add: update_conv')
  qed
qed

lemma set_streams_keys:
  "set_streams L m ss = Returned m1 \<Longrightarrow>
     fst ` set (streams m1) = fst ` set (streams m) \<union> fst ` set ss"
proof (induction ss arbitrary: m)
  case Nil
  then show ?case by simp
next
  case (Cons a ss)
  obtain n st where a: "a = (n, st)" by (cases a)
  from set_streams_step[OF Cons.prems[unfolded a]] obtain s1 where
    rest: "set_streams L (m\<lparr>streams := AList.update n s1 (streams m)\<rparr>) ss = Returned m1"
    by blast
  from Cons.IH[OF rest] show ?case
    by (auto simp: a keys_update)
qed

lemma manager_set_state_effect:
  assumes "manager_set_state L m r = Returned m1"
  shows "\<exists>t. master_state r = Some t
           \<and> setstate L (master m) t = Returned (master m1)
           \<and> set_streams L (m\<lparr>master := master m1\<rparr>)
                (case st_streams r of None \<Rightarrow> [] | Some l \<Rightarrow> l) = Returned m1"
proof -
  from assms obtain t g where t: "master_state r = Some t"
    and g: "setstate L (master m) t = Returned g"
    and s: "set_streams L (m\<lparr>master := g\<rparr>) (case st_streams r of None \<Rightarrow> [] | Some l \<Rightarrow> l)
              = Returned m1"
    by (auto simp: manager_set_state_def split: option.splits outcome.splits)
  have "master m1 = g"
    using set_streams_frame[of L "m\<lparr>master := g\<rparr>"
        "case st_streams r of None \<Rightarrow> [] | Some l \<Rightarrow> l" "[]"] s
    by simp
  with t g s show ?thesis by auto
qed

text \<open>
  C9. What \<open>restore\<close> touches and what it leaves. Whatever the blob, and whether
  \<open>restore\<close> returns or raises, the entity list and the per-phase registration lists are
  the ones the kernel had. When \<open>restore\<close> returns, the kernel differs from the old one
  in the time, the phase list and the stream manager only, and these three are
  overwritten: the time is the imported one; the phase list is the imported one (the
  current one when the blob has none); the master generator holds what \<open>setstate\<close> made
  of the imported master token; every stream the imported state names (its names being
  distinct, as the keys of a dictionary are) holds what \<open>set_state\<close> made of its token,
  starting from the stream the manager had under that name, or from a new
  \<open>RNGStream(0)\<close> when it had none; the manager has the streams it had and those the
  imported state names, and no others; the master seed field is kept; and a stream whose
  name the imported state does not mention is exactly as it was.
\<close>

theorem restore_frame:
  "entities (state_of (restore L k blob)) = entities k
   \<and> phase_registrations (state_of (restore L k blob)) = phase_registrations k
   \<and> (\<forall>state k1. loads L blob = Inr state \<and> restore L k blob = Returned k1 \<longrightarrow>
        k1 = k\<lparr>time := time k1, phases := phases k1, rng_manager := rng_manager k1\<rparr>
        \<and> st_time state = Some (time k1)
        \<and> phases k1 = (case st_phases state of None \<Rightarrow> phases k | Some ps \<Rightarrow> ps)
        \<and> (\<exists>r t. st_rng state = Some r
              \<and> manager_set_state L (rng_manager k) r = Returned (rng_manager k1)
              \<and> master_state r = Some t
              \<and> setstate L (master (rng_manager k)) t = Returned (master (rng_manager k1))
              \<and> master_seed (rng_manager k1) = master_seed (rng_manager k)
              \<and> fst ` set (streams (rng_manager k1))
                  = fst ` set (streams (rng_manager k))
                    \<union> fst ` set (case st_streams r of None \<Rightarrow> [] | Some l \<Rightarrow> l)
              \<and> (distinct (map fst (case st_streams r of None \<Rightarrow> [] | Some l \<Rightarrow> l)) \<longrightarrow>
                   (\<forall>(name, tok) \<in> set (case st_streams r of None \<Rightarrow> [] | Some l \<Rightarrow> l).
                      \<exists>s1. stream_set_state L
                             (case map_of (streams (rng_manager k)) name of
                                Some s \<Rightarrow> s
                              | None \<Rightarrow> RNGStream L 0) tok = Returned s1
                           \<and> map_of (streams (rng_manager k1)) name = Some s1))
              \<and> (\<forall>name. name \<notin> fst ` set (case st_streams r of None \<Rightarrow> [] | Some l \<Rightarrow> l) \<longrightarrow>
                    map_of (streams (rng_manager k1)) name = map_of (streams (rng_manager k)) name)))"
proof -
  have reg: "entities (state_of (restore L k blob)) = entities k
     \<and> phase_registrations (state_of (restore L k blob)) = phase_registrations k"
    by (simp add: restore_def Let_def split: sum.splits option.splits outcome.splits)
  have wf: "k1 = k\<lparr>time := time k1, phases := phases k1, rng_manager := rng_manager k1\<rparr>
        \<and> st_time state = Some (time k1)
        \<and> phases k1 = (case st_phases state of None \<Rightarrow> phases k | Some ps \<Rightarrow> ps)
        \<and> (\<exists>r t. st_rng state = Some r
              \<and> manager_set_state L (rng_manager k) r = Returned (rng_manager k1)
              \<and> master_state r = Some t
              \<and> setstate L (master (rng_manager k)) t = Returned (master (rng_manager k1))
              \<and> master_seed (rng_manager k1) = master_seed (rng_manager k)
              \<and> fst ` set (streams (rng_manager k1))
                  = fst ` set (streams (rng_manager k))
                    \<union> fst ` set (case st_streams r of None \<Rightarrow> [] | Some l \<Rightarrow> l)
              \<and> (distinct (map fst (case st_streams r of None \<Rightarrow> [] | Some l \<Rightarrow> l)) \<longrightarrow>
                   (\<forall>(name, tok) \<in> set (case st_streams r of None \<Rightarrow> [] | Some l \<Rightarrow> l).
                      \<exists>s1. stream_set_state L
                             (case map_of (streams (rng_manager k)) name of
                                Some s \<Rightarrow> s
                              | None \<Rightarrow> RNGStream L 0) tok = Returned s1
                           \<and> map_of (streams (rng_manager k1)) name = Some s1))
              \<and> (\<forall>name. name \<notin> fst ` set (case st_streams r of None \<Rightarrow> [] | Some l \<Rightarrow> l) \<longrightarrow>
                    map_of (streams (rng_manager k1)) name = map_of (streams (rng_manager k)) name))"
    if l: "loads L blob = Inr state" and r: "restore L k blob = Returned k1" for state k1
  proof -
    from l r obtain t0 r' m1 where t0: "st_time state = Some t0" and r': "st_rng state = Some r'"
      and m1: "manager_set_state L (rng_manager k) r' = Returned m1"
      and k1: "k1 = k\<lparr>time := t0, phases := (case st_phases state of None \<Rightarrow> phases k | Some ps \<Rightarrow> ps), rng_manager := m1\<rparr>"
      by (auto simp: restore_def Let_def split: option.splits outcome.splits)
    let ?ss = "case st_streams r' of None \<Rightarrow> [] | Some l \<Rightarrow> l"
    let ?m = "rng_manager k"
    have fr: "name \<notin> fst ` set ?ss \<Longrightarrow> map_of (streams m1) name = map_of (streams ?m) name" for name
      using manager_set_state_frame[of L ?m r' name] m1 by simp
    have sd: "master_seed m1 = master_seed ?m"
      using manager_set_state_frame[of L ?m r' "[]"] m1 by simp
    from manager_set_state_effect[OF m1] obtain t where t: "master_state r' = Some t"
      and g: "setstate L (master ?m) t = Returned (master m1)"
      and ss: "set_streams L (?m\<lparr>master := master m1\<rparr>) ?ss = Returned m1"
      by blast
    have keys: "fst ` set (streams m1) = fst ` set (streams ?m) \<union> fst ` set ?ss"
      using set_streams_keys[OF ss] by simp
    have eff: "\<forall>(name, tok) \<in> set ?ss.
        \<exists>s1. stream_set_state L (case map_of (streams ?m) name of Some s \<Rightarrow> s | None \<Rightarrow> RNGStream L 0) tok
               = Returned s1
            \<and> map_of (streams m1) name = Some s1"
      if d: "distinct (map fst ?ss)"
      using set_streams_effect[OF d ss] by auto
    have m1': "rng_manager k1 = m1" "time k1 = t0"
      "phases k1 = (case st_phases state of None \<Rightarrow> phases k | Some ps \<Rightarrow> ps)"
      by (simp_all add: k1)
    have shape: "k1 = k\<lparr>time := time k1, phases := phases k1, rng_manager := rng_manager k1\<rparr>"
      by (simp add: k1)
    show ?thesis
      unfolding m1'
      using shape[unfolded m1'] t0 r' m1 t g sd keys eff fr by blast
  qed
  show ?thesis using reg wf by blast
qed

theorem restore_frame_witness:
  "loads lib0 blob7 = Inr (the blob7)
   \<and> restore lib0 kernel_streams blob7 = Returned (state_of (restore lib0 kernel_streams blob7))
   \<and> entities (state_of (restore lib0 kernel_streams blob7)) = [(''A'', 1), (''B'', 2)]
   \<and> phase_registrations (state_of (restore lib0 kernel_streams blob7))
       = [(''perceive'', [(''B'', 2)]), (''act'', []), (''commit'', [(''A'', 1)])]
   \<and> time (state_of (restore lib0 kernel_streams blob7)) = 7
   \<and> phases (state_of (restore lib0 kernel_streams blob7)) = [''act'']
   \<and> master (rng_manager kernel_streams) = 2
   \<and> master (rng_manager (state_of (restore lib0 kernel_streams blob7))) = 39
   \<and> master_seed (rng_manager (state_of (restore lib0 kernel_streams blob7))) = 0
   \<and> fst ` set (streams (rng_manager (state_of (restore lib0 kernel_streams blob7))))
       = {''a0'', ''zz'', ''new''}
   \<and> distinct (map fst [(''a0'', 50::nat), (''new'', 60)])
   \<and> map_of (streams (rng_manager kernel_streams)) ''a0'' = Some \<lparr>seed = 2, rng = 2\<rparr>
   \<and> map_of (streams (rng_manager (state_of (restore lib0 kernel_streams blob7)))) ''a0''
       = Some \<lparr>seed = 2, rng = 49\<rparr>
   \<and> map_of (streams (rng_manager kernel_streams)) ''new'' = None
   \<and> map_of (streams (rng_manager (state_of (restore lib0 kernel_streams blob7)))) ''new''
       = Some \<lparr>seed = 0, rng = 59\<rparr>
   \<and> ''zz'' \<notin> fst ` set [(''a0'', 50::nat), (''new'', 60)]
   \<and> map_of (streams (rng_manager kernel_streams)) ''zz'' = Some \<lparr>seed = 3, rng = 3\<rparr>
   \<and> map_of (streams (rng_manager (state_of (restore lib0 kernel_streams blob7)))) ''zz''
       = Some \<lparr>seed = 3, rng = 3\<rparr>"
proof -
  let ?k1 = "state_of (restore lib0 kernel_streams blob7)"
  let ?m = "rng_manager kernel_streams"
  let ?m1 = "rng_manager ?k1"
  let ?ss = "[(''a0'', 50::nat), (''new'', 60)]"
  have l: "loads lib0 blob7 = Inr (the blob7)"
    by (simp add: blob7_def lib0_simps)
  have r: "restore lib0 kernel_streams blob7 = Returned ?k1"
    by (simp add: restore_blob7)
  have old: "master ?m = 2" "master_seed ?m = 0"
    "map_of (streams ?m) ''a0'' = Some \<lparr>seed = 2, rng = 2\<rparr>"
    "map_of (streams ?m) ''new'' = None"
    "map_of (streams ?m) ''zz'' = Some \<lparr>seed = 3, rng = 3\<rparr>"
    "fst ` set (streams ?m) = {''a0'', ''zz''}"
    "entities kernel_streams = [(''A'', 1), (''B'', 2)]"
    "phase_registrations kernel_streams
       = [(''perceive'', [(''B'', 2)]), (''act'', []), (''commit'', [(''A'', 1)])]"
    by (simp_all add: kernel_streams_eq)
  have s: "st_time (the blob7) = Some 7" "st_phases (the blob7) = Some [''act'']"
    "st_rng (the blob7) = Some \<lparr>master_state = Some 40, st_streams = Some ?ss\<rparr>"
    by (simp_all add: blob7_def)
  have d: "distinct (map fst ?ss)" and nz: "''zz'' \<notin> fst ` set ?ss"
    by simp_all
  from restore_frame[of lib0 kernel_streams blob7] l r
  have c: "entities ?k1 = entities kernel_streams"
    "phase_registrations ?k1 = phase_registrations kernel_streams"
    "st_time (the blob7) = Some (time ?k1)"
    "phases ?k1 = (case st_phases (the blob7) of None \<Rightarrow> phases kernel_streams | Some ps \<Rightarrow> ps)"
    by blast+
  from restore_frame[of lib0 kernel_streams blob7] l r
  obtain r0 t where r0: "st_rng (the blob7) = Some r0"
    and t: "master_state r0 = Some t"
    and ms: "setstate lib0 (master ?m) t = Returned (master ?m1)"
    and sd: "master_seed ?m1 = master_seed ?m"
    and keys: "fst ` set (streams ?m1)
        = fst ` set (streams ?m) \<union> fst ` set (case st_streams r0 of None \<Rightarrow> [] | Some l \<Rightarrow> l)"
    and eff: "distinct (map fst (case st_streams r0 of None \<Rightarrow> [] | Some l \<Rightarrow> l)) \<longrightarrow>
        (\<forall>(name, tok) \<in> set (case st_streams r0 of None \<Rightarrow> [] | Some l \<Rightarrow> l).
           \<exists>s1. stream_set_state lib0
                  (case map_of (streams ?m) name of Some s \<Rightarrow> s | None \<Rightarrow> RNGStream lib0 0) tok
                  = Returned s1
                \<and> map_of (streams ?m1) name = Some s1)"
    and fr: "\<forall>name. name \<notin> fst ` set (case st_streams r0 of None \<Rightarrow> [] | Some l \<Rightarrow> l) \<longrightarrow>
        map_of (streams ?m1) name = map_of (streams ?m) name"
    by blast
  from r0 s(3) have r0': "r0 = \<lparr>master_state = Some 40, st_streams = Some ?ss\<rparr>"
    by auto
  have ss: "(case st_streams r0 of None \<Rightarrow> [] | Some l \<Rightarrow> l) = ?ss"
    by (simp add: r0')
  from t have t40: "t = 40"
    by (simp add: r0')
  from ms have m39: "master ?m1 = 39"
    by (simp add: t40 old lib0_simps)
  from sd have sd0: "master_seed ?m1 = 0"
    by (simp add: old)
  from keys have ks: "fst ` set (streams ?m1) = {''a0'', ''zz'', ''new''}"
    unfolding ss old by auto
  from eff d have eff': "\<forall>(name, tok) \<in> set ?ss.
      \<exists>s1. stream_set_state lib0
             (case map_of (streams ?m) name of Some s \<Rightarrow> s | None \<Rightarrow> RNGStream lib0 0) tok
             = Returned s1
           \<and> map_of (streams ?m1) name = Some s1"
    unfolding ss by blast
  from eff' obtain sa where
    "stream_set_state lib0 (case map_of (streams ?m) ''a0'' of Some s \<Rightarrow> s | None \<Rightarrow> RNGStream lib0 0) 50
       = Returned sa"
    and a0: "map_of (streams ?m1) ''a0'' = Some sa"
    by auto
  then have sa: "sa = \<lparr>seed = 2, rng = 49\<rparr>"
    by (simp add: old stream_set_state_def lib0_simps)
  from eff' obtain sn where
    "stream_set_state lib0 (case map_of (streams ?m) ''new'' of Some s \<Rightarrow> s | None \<Rightarrow> RNGStream lib0 0) 60
       = Returned sn"
    and new: "map_of (streams ?m1) ''new'' = Some sn"
    by auto
  then have sn: "sn = \<lparr>seed = 0, rng = 59\<rparr>"
    by (simp add: old stream_set_state_def RNGStream_def lib0_simps)
  from fr nz have zz: "map_of (streams ?m1) ''zz'' = map_of (streams ?m) ''zz''"
    unfolding ss by blast
  show ?thesis
    using l r c old s d nz m39 sd0 ks a0 sa new sn zz by simp
qed

subsection \<open>Importing a malformed state\<close>

text \<open>
  C3, as the code has it. \<open>restore\<close> raises and leaves the kernel exactly as it was when
  the blob cannot be unpickled (the error is the one \<open>pickle.loads\<close> raises) and when
  the decoded dictionary has no entry \<open>'time'\<close> (a \<open>KeyError\<close>). When the entry \<open>'rng'\<close>
  is missing, the \<open>KeyError\<close> comes after the time and the phase list were assigned, and
  the kernel keeps both assignments. A stream's \<open>set_state\<close> raises what the
  generator's \<open>setstate\<close> raises and holds what the generator holds then; it installs no
  default.
\<close>

theorem restore_malformed:
  "(loads L blob = Inl x \<longrightarrow> restore L k blob = Raised x k)
   \<and> (loads L blob = Inr state \<and> st_time state = None \<longrightarrow>
        restore L k blob = Raised (KeyError ''time'') k)
   \<and> (loads L blob = Inr state \<and> st_time state = Some t \<and> st_rng state = None \<longrightarrow>
        restore L k blob
          = Raised (KeyError ''rng'')
              (k\<lparr>time := t,
                 phases := (case st_phases state of None \<Rightarrow> phases k | Some ps \<Rightarrow> ps)\<rparr>))
   \<and> (setstate L (rng s) st = Raised x g \<longrightarrow> stream_set_state L s st = Raised x (s\<lparr>rng := g\<rparr>))"
  by (simp add: restore_def stream_set_state_def Let_def split: option.splits)

theorem restore_malformed_witness:
  "loads lib0 None = Inl (OtherError ''UnpicklingError'')
   \<and> restore lib0 kernel0 None = Raised (OtherError ''UnpicklingError'') kernel0
   \<and> loads lib0 (Some \<lparr>st_time = None, st_rng = None, st_phases = None\<rparr>)
       = Inr \<lparr>st_time = None, st_rng = None, st_phases = None\<rparr>
   \<and> restore lib0 kernel0 (Some \<lparr>st_time = None, st_rng = None, st_phases = None\<rparr>)
       = Raised (KeyError ''time'') kernel0
   \<and> loads lib0 blob_no_rng = Inr \<lparr>st_time = Some 5, st_rng = None, st_phases = None\<rparr>
   \<and> restore lib0 kernel0 blob_no_rng
       = Raised (KeyError ''rng'') (kernel0\<lparr>time := 5, phases := phases kernel0\<rparr>)
   \<and> setstate lib0 (rng \<lparr>seed = 1, rng = 4\<rparr>) 0 = Raised (ValueError ''state'') 4
   \<and> stream_set_state lib0 \<lparr>seed = 1, rng = 4\<rparr> 0
       = Raised (ValueError ''state'') \<lparr>seed = 1, rng = 4\<rparr>"
proof -
  let ?d0 = "\<lparr>st_time = None, st_rng = None, st_phases = None\<rparr> :: nat kernel_state"
  let ?d5 = "\<lparr>st_time = Some 5, st_rng = None, st_phases = None\<rparr> :: nat kernel_state"
  have l1: "loads lib0 None = Inl (OtherError ''UnpicklingError'')"
    and l2: "loads lib0 (Some ?d0) = Inr ?d0"
    and l3: "loads lib0 blob_no_rng = Inr ?d5"
    and l4: "setstate lib0 (rng \<lparr>seed = 1, rng = 4\<rparr>) 0 = Raised (ValueError ''state'') 4"
    by (simp_all add: lib0_simps blob_no_rng_def)
  have c1: "restore lib0 kernel0 None = Raised (OtherError ''UnpicklingError'') kernel0"
    using restore_malformed[of lib0 None "OtherError ''UnpicklingError''" kernel0 ?d0 0
        "\<lparr>seed = 1, rng = 4\<rparr>" 0 0] l1
    by simp
  have c2: "restore lib0 kernel0 (Some ?d0) = Raised (KeyError ''time'') kernel0"
    using restore_malformed[of lib0 "Some ?d0" IndexError kernel0 ?d0 0 "\<lparr>seed = 1, rng = 4\<rparr>" 0 0] l2
    by simp
  have c3: "restore lib0 kernel0 blob_no_rng
       = Raised (KeyError ''rng'') (kernel0\<lparr>time := 5, phases := phases kernel0\<rparr>)"
    using restore_malformed[of lib0 blob_no_rng IndexError kernel0 ?d5 5 "\<lparr>seed = 1, rng = 4\<rparr>" 0 0] l3
    by simp
  have c4: "stream_set_state lib0 \<lparr>seed = 1, rng = 4\<rparr> 0
       = Raised (ValueError ''state'') \<lparr>seed = 1, rng = 4\<rparr>"
    using restore_malformed[of lib0 None "ValueError ''state''" kernel0 ?d0 0
        "\<lparr>seed = 1, rng = 4\<rparr>" 0 4] l4
    by simp
  show ?thesis using l1 l2 l3 l4 c1 c2 c3 c4 by blast
qed

text \<open>
  C3, as the specification words it, fails: \<open>restore\<close> is not all-or-nothing. On
  \<open>blob_no_rng\<close> it raises \<open>KeyError('rng')\<close> with the time already overwritten, and on
  \<open>blob_truncated\<close> it returns normally, keeping the current phase list and reading the
  missing stream dictionary as empty.
\<close>

theorem restore_not_all_or_nothing:
  "restore lib0 kernel0 blob_no_rng = Raised (KeyError ''rng'') (kernel0\<lparr>time := 5\<rparr>)
   \<and> time (state_of (restore lib0 kernel0 blob_no_rng)) \<noteq> time kernel0
   \<and> restore lib0 kernel0 blob_truncated
       = Returned (kernel0\<lparr>time := 5, rng_manager := (rng_manager kernel0)\<lparr>master := 2\<rparr>\<rparr>)"
  by (simp add: restore_def manager_set_state_def blob_no_rng_def blob_truncated_def
      lib0_simps kernel0_eq)

subsection \<open>A hook that raises\<close>

lemma kernel_abc_eq:
  "kernel_abc = \<lparr>time = 0, rng_manager = \<lparr>master_seed = 0, master = 0, streams = []\<rparr>,
     entities = [(''A'', 1), (''B'', 2), (''C'', 3)], phases = [''perceive'', ''act'', ''commit''],
     phase_registrations = [(''perceive'', [(''A'', 1)]), (''act'', [(''B'', 2), (''C'', 3)]), (''commit'', [])]\<rparr>"
  by (simp add: kernel_abc_def kernel0_eq register_def)

text \<open>
  C7. Let the tick have completed the phases \<open>pps\<close> and, in phase \<open>ph\<close>, the entities
  \<open>pre\<close>, reaching the state \<open>s1\<close>, and let the hook of the next entity raise \<open>x\<close> and
  leave the state \<open>s2\<close>. Then \<open>step\<close> raises that same \<open>x\<close>, and the state it leaves is
  \<open>s2\<close>: the effects of everything that ran are kept, no later entity or phase runs, the
  hook is not run again, and the time of \<open>s2\<close> is not incremented.
\<close>

theorem step_hook_failure:
  assumes "phases (fst s) = pps @ ph # rest"
      and "step_phases ent pps s = Returned s0"
      and "map_of (phase_registrations (fst s0)) ph = Some (pre @ (i, e) # post)"
      and "step_entities ent ph pre s0 = Returned s1"
      and "invoke ent e ph s1 = Raised x s2"
  shows "step ent s = Raised x s2"
  using assms by (simp add: step_def step_phases_append step_entities_append)

theorem step_hook_failure_witness:
  "phases (fst (kernel_abc, [])) = [''perceive''] @ ''act'' # [''commit'']
   \<and> step_phases fail_ent [''perceive''] (kernel_abc, []) = Returned (kernel_abc, [(1, ''perceive'')])
   \<and> map_of (phase_registrations (fst (kernel_abc, [(1::nat, ''perceive'')]))) ''act''
       = Some ([] @ (''B'', 2) # [(''C'', 3)])
   \<and> step_entities fail_ent ''act'' [] (kernel_abc, [(1, ''perceive'')])
       = Returned (kernel_abc, [(1, ''perceive'')])
   \<and> invoke fail_ent 2 ''act'' (kernel_abc, [(1, ''perceive'')])
       = Raised (OtherError ''boom'') (kernel_abc, [(1, ''perceive''), (2, ''raised'')])
   \<and> step fail_ent (kernel_abc, [])
       = Raised (OtherError ''boom'') (kernel_abc, [(1, ''perceive''), (2, ''raised'')])
   \<and> time kernel_abc = 0"
proof -
  have h1: "phases (fst (kernel_abc, [])) = [''perceive''] @ ''act'' # [''commit'']"
    by (simp add: kernel_abc_eq)
  have h2: "step_phases fail_ent [''perceive''] (kernel_abc, [])
      = Returned (kernel_abc, [(1, ''perceive'')])"
    by (simp add: kernel_abc_eq invoke_def fail_ent_def log_ent_def)
  have h3: "map_of (phase_registrations (fst (kernel_abc, [(1::nat, ''perceive'')]))) ''act''
       = Some ([] @ (''B'', 2) # [(''C'', 3)])"
    by (simp add: kernel_abc_eq)
  have h4: "step_entities fail_ent ''act'' [] (kernel_abc, [(1, ''perceive'')])
       = Returned (kernel_abc, [(1, ''perceive'')])"
    by simp
  have h5: "invoke fail_ent 2 ''act'' (kernel_abc, [(1, ''perceive'')])
       = Raised (OtherError ''boom'') (kernel_abc, [(1, ''perceive''), (2, ''raised'')])"
    by (simp add: invoke_def fail_ent_def)
  have t: "time kernel_abc = 0"
    by (simp add: kernel_abc_eq)
  from step_hook_failure[OF h1 h2 h3 h4 h5] h1 h2 h3 h4 h5 t show ?thesis
    by blast
qed

subsection \<open>The order of invocation in a tick\<close>

lemma declared_order_time [simp]: "declared_order (k\<lparr>time := t\<rparr>) = declared_order k"
  by (simp add: declared_order_def)

lemma step_log:
  assumes log: "\<forall>e ph s s'. invoke ent e ph s = Returned s' \<longrightarrow> lg (snd s') = lg (snd s) @ [(e, ph)]"
      and fr: "\<forall>e ph s s'. invoke ent e ph s = Returned s' \<longrightarrow>
                 phase_registrations (fst s') = phase_registrations (fst s)
                 \<and> phases (fst s') = phases (fst s) \<and> time (fst s') = time (fst s)"
      and st: "step ent s = Returned s'"
  shows "lg (snd s') = lg (snd s) @ declared_order (fst s)
         \<and> time (fst s') = time (fst s) + 1
         \<and> phase_registrations (fst s') = phase_registrations (fst s)
         \<and> phases (fst s') = phases (fst s)"
proof -
  from st obtain k w where ph: "step_phases ent (phases (fst s)) s = Returned (k, w)"
    and s': "s' = (k\<lparr>time := time k + 1\<rparr>, w)"
    by (auto simp: step_def split: outcome.splits prod.splits)
  have r: "phase_registrations k = phase_registrations (fst s)"
    using step_phases_frame[of ent phase_registrations, OF _ ph] fr by simp
  have p: "phases k = phases (fst s)"
    using step_phases_frame[of ent phases, OF _ ph] fr by simp
  have t: "time k = time (fst s)"
    using step_phases_frame[of ent time, OF _ ph] fr by simp
  have l: "lg w = lg (snd s) @ declared_order (fst s)"
    using step_phases_log[of ent lg, OF _ _ ph] log fr by (simp add: declared_order_def)
  show ?thesis using r p t l by (simp add: s')
qed

lemma run_loop_log:
  assumes log: "\<forall>e ph s s'. invoke ent e ph s = Returned s' \<longrightarrow> lg (snd s') = lg (snd s) @ [(e, ph)]"
      and fr: "\<forall>e ph s s'. invoke ent e ph s = Returned s' \<longrightarrow>
                 phase_registrations (fst s') = phase_registrations (fst s)
                 \<and> phases (fst s') = phases (fst s) \<and> time (fst s') = time (fst s)"
  shows "run_loop ent n s = Returned s' \<Longrightarrow>
           time (fst s') = time (fst s) + int n
           \<and> lg (snd s') = lg (snd s) @ concat (replicate n (declared_order (fst s)))"
proof (induction n arbitrary: s)
  case 0
  then show ?case by simp
next
  case (Suc n)
  from Suc.prems obtain s1 where s1: "step ent s = Returned s1"
    and rest: "run_loop ent n s1 = Returned s'"
    by (auto split: outcome.splits)
  have d: "declared_order (fst s1) = declared_order (fst s)"
    using step_log[of ent lg, OF log fr s1] by (simp add: declared_order_def)
  from step_log[of ent lg, OF log fr s1] Suc.IH[OF rest] d show ?case
    by simp
qed

lemma step_phases_log_within:
  assumes log: "\<And>e ph s s'. invoke ent e ph s = Returned s' \<Longrightarrow> lg (snd s') = lg (snd s) @ [(e, ph)]"
  shows "step_phases ent ps s = Returned s' \<Longrightarrow>
           \<exists>new. lg (snd s') = lg (snd s) @ new \<and> snd ` set new \<subseteq> set ps"
proof (induction ps arbitrary: s)
  case Nil
  then show ?case by simp
next
  case (Cons ph ps)
  from Cons.prems obtain l s1 where l: "map_of (phase_registrations (fst s)) ph = Some l"
    and s1: "step_entities ent ph l s = Returned s1"
    and rest: "step_phases ent ps s1 = Returned s'"
    by (auto split: outcome.splits option.splits)
  have one: "lg (snd s1) = lg (snd s) @ map (\<lambda>(i, e). (e, ph)) l"
    using step_entities_log[of ent lg, OF log s1] .
  from Cons.IH[OF rest] obtain new where new: "lg (snd s') = lg (snd s1) @ new"
    and sub: "snd ` set new \<subseteq> set ps"
    by blast
  have "lg (snd s') = lg (snd s) @ (map (\<lambda>(i, e). (e, ph)) l @ new)"
    by (simp add: new one)
  moreover have "snd ` set (map (\<lambda>(i, e). (e, ph)) l @ new) \<subseteq> set (ph # ps)"
    using sub by auto
  ultimately show ?case by blast
qed

lemma step_returned:
  "step ent s = Returned s' \<Longrightarrow>
     \<exists>s2. step_phases ent (phases (fst s)) s = Returned s2
        \<and> s' = ((fst s2)\<lparr>time := time (fst s2) + 1\<rparr>, snd s2)"
  by (auto simp: step_def split: outcome.splits prod.splits)

lemma step_phases_split:
  assumes "step_phases ent (pps @ ph # rest) s = Returned s2"
  shows "\<exists>s0 l s1. step_phases ent pps s = Returned s0
           \<and> map_of (phase_registrations (fst s0)) ph = Some l
           \<and> step_entities ent ph l s0 = Returned s1
           \<and> step_phases ent rest s1 = Returned s2"
  using assms
  by (auto simp: step_phases_append split: outcome.splits option.splits)

lemma step_phase_start:
  assumes log: "\<And>e ph s s'. invoke ent e ph s = Returned s' \<Longrightarrow> lg (snd s') = lg (snd s) @ [(e, ph)]"
      and split: "phases (fst s) = pps @ ph # rest"
      and s0: "step_phases ent pps s = Returned s0"
      and l: "map_of (phase_registrations (fst s0)) ph = Some l"
      and st: "step ent s = Returned s'"
  shows "\<exists>before after. lg (snd s0) = lg (snd s) @ before \<and> snd ` set before \<subseteq> set pps
           \<and> lg (snd s') = lg (snd s0) @ map (\<lambda>(i, e). (e, ph)) l @ after
           \<and> snd ` set after \<subseteq> set rest"
proof -
  from step_returned[OF st] split obtain s2 where
    s2: "step_phases ent (pps @ ph # rest) s = Returned s2" and s': "lg (snd s') = lg (snd s2)"
    by auto
  from step_phases_split[OF s2] s0 l obtain s1 where
    s1: "step_entities ent ph l s0 = Returned s1" and r: "step_phases ent rest s1 = Returned s2"
    by auto
  from step_phases_log_within[of ent lg, OF log s0] obtain before where
    b: "lg (snd s0) = lg (snd s) @ before" "snd ` set before \<subseteq> set pps"
    by blast
  from step_phases_log_within[of ent lg, OF log r] obtain after where
    a: "lg (snd s2) = lg (snd s1) @ after" "snd ` set after \<subseteq> set rest"
    by blast
  have d: "lg (snd s1) = lg (snd s0) @ map (\<lambda>(i, e). (e, ph)) l"
    using step_entities_log[of ent lg, OF log s1] .
  from b a d s' show ?thesis by auto
qed

lemma no_later_before: "a \<notin> set X \<Longrightarrow> b \<notin> set Y \<Longrightarrow> X @ Y \<noteq> A @ a # B @ b # C"
  by (auto simp: append_eq_append_conv2 append_eq_Cons_conv)

lemma step_strictly_before:
  assumes log: "\<And>e ph s s'. invoke ent e ph s = Returned s' \<Longrightarrow> lg (snd s') = lg (snd s) @ [(e, ph)]"
      and d: "distinct (phases (fst s))"
      and split: "phases (fst s) = pre @ ph1 # mid @ ph2 # post"
      and st: "step ent s = Returned s'"
      and new: "lg (snd s') = lg (snd s) @ new"
  shows "new \<noteq> A @ (e2, ph2) # B @ (e1, ph1) # C"
proof -
  from step_returned[OF st] split obtain s2 where
    s2: "step_phases ent (pre @ ph1 # (mid @ ph2 # post)) s = Returned s2"
    by auto
  from step_phases_split[OF s2] obtain s0 l where
    s0: "step_phases ent pre s = Returned s0"
    and l: "map_of (phase_registrations (fst s0)) ph1 = Some l"
    by blast
  from step_phase_start[of ent lg, OF log split s0 l st] obtain before after where
    b: "lg (snd s0) = lg (snd s) @ before" "snd ` set before \<subseteq> set pre"
    and a: "lg (snd s') = lg (snd s0) @ map (\<lambda>(i, e). (e, ph1)) l @ after"
      "snd ` set after \<subseteq> set (mid @ ph2 # post)"
    by blast
  from d split have p2: "ph2 \<notin> set pre" "ph2 \<noteq> ph1" and p1: "ph1 \<notin> set (mid @ ph2 # post)"
    by auto
  have n: "new = (before @ map (\<lambda>(i, e). (e, ph1)) l) @ after"
    using new a b by simp
  have x: "(e2, ph2) \<notin> set (before @ map (\<lambda>(i, e). (e, ph1)) l)"
    using p2 b(2) by (auto simp: image_subset_iff)
  have y: "(e1, ph1) \<notin> set after"
    using p1 a(2) by (auto simp: image_subset_iff)
  from no_later_before[OF x y] n show ?thesis by simp
qed

lemma kernel_a_grown_eq:
  "kernel_a_grown = \<lparr>time = 0, rng_manager = \<lparr>master_seed = 0, master = 0, streams = []\<rparr>,
     entities = [(''a'', 1), (''D'', 4), (''E'', 5)], phases = [''perceive'', ''act'', ''commit''],
     phase_registrations = [(''perceive'', [(''a'', 1), (''E'', 5)]), (''act'', [(''D'', 4)]),
       (''commit'', [])]\<rparr>"
  by (simp add: kernel_a_grown_def kernel_a_eq register_def)

lemma kernel_pqp_eq:
  "kernel_pqp = \<lparr>time = 0, rng_manager = \<lparr>master_seed = 0, master = 0, streams = []\<rparr>,
     entities = [(''A'', 1), (''B'', 2)], phases = [''p'', ''q'', ''p''],
     phase_registrations = [(''p'', [(''A'', 1)]), (''q'', [(''B'', 2)])]\<rparr>"
  by (simp add: kernel_pqp_def Kernel_def RNGManager_def lib0_simps register_def)

lemma register_phases: "phases (state_of (register k i e ph)) = phases k"
  by (simp add: register_def Let_def split: option.splits list.splits)

lemma register_time: "time (state_of (register k i e ph)) = time k"
  by (simp add: register_def Let_def split: option.splits list.splits)

lemma reg_ent_returned:
  assumes "invoke reg_ent e ph s = Returned s'"
  shows "snd s' = snd s @ [(e, ph)] \<and> phases (fst s') = phases (fst s)
       \<and> time (fst s') = time (fst s)"
proof (cases "e = 1")
  case False
  with assms show ?thesis
    by (cases s) (auto simp: invoke_def reg_ent_def log_ent_def)
next
  case True
  obtain k w where s: "s = (k, w)" by (cases s)
  from assms True obtain k1 k2 where k1: "register k ''D'' 4 (Some ''act'') = Returned k1"
    and k2: "register k1 ''E'' 5 (Some ph) = Returned k2"
    and s': "s' = (k2, w @ [(e, ph)])"
    by (auto simp: invoke_def reg_ent_def s split: outcome.splits)
  from register_phases[of k "''D''" 4 "Some ''act''"] register_phases[of k1 "''E''" 5 "Some ph"]
    register_time[of k "''D''" 4 "Some ''act''"] register_time[of k1 "''E''" 5 "Some ph"] k1 k2
  show ?thesis by (simp add: s s')
qed

text \<open>
  C6, as the code has it. Entities are taken to log their own invocation (a hook that
  returns has appended its handle and the phase to the log \<open>lg\<close>) and to leave the
  phase list as it is. For a tick that returns:

  (1) Phase by phase, in declared order, with the membership list found at phase start.
  Split the declared phase list at any phase \<open>ph\<close>, \<open>pps @ ph # rest\<close>; let \<open>s0\<close> be the
  state in which the earlier phases \<open>pps\<close> end, and \<open>l\<close> the membership list of \<open>ph\<close> in
  \<open>s0\<close>, that is, when \<open>ph\<close> starts. Then the log of the tick is: the invocations made
  in the phases \<open>pps\<close>, then exactly the entities of \<open>l\<close> in registration order, then
  invocations made in the phases \<open>rest\<close>. Registrations made by hooks count as the code
  counts them: an entity registered into a later phase runs in this tick, one
  registered into the running phase waits for the next tick.

  (2) Strictly before. When no phase name is declared twice and \<open>ph1\<close> is declared
  before \<open>ph2\<close>, the log of the tick never has an invocation in \<open>ph2\<close> followed,
  anywhere later, by an invocation in \<open>ph1\<close>.

  (3) A tick that returns is the run of the declared phases followed by adding 1 to the
  time and nothing else; (4) so, with hooks that leave the time alone, the time after
  the tick is the time before plus 1.

  (5) Within a phase the log grows by the list handed to the loop, whatever the hooks
  do to the registry meanwhile. (6) With hooks that leave registry, phase list and time
  alone, a tick logs exactly \<open>declared_order\<close>, and \<open>run n\<close> logs it \<open>n\<close> times and adds
  \<open>n\<close> to the time. (7) \<open>run 0\<close> returns the state unchanged, and (8) \<open>run (n + 1)\<close> is
  one tick followed by \<open>run n\<close>, stopping where a tick raises.
\<close>

theorem step_order:
  assumes logs: "\<forall>e ph s s'. invoke ent e ph s = Returned s' \<longrightarrow> lg (snd s') = lg (snd s) @ [(e, ph)]"
      and keep: "\<forall>e ph s s'. invoke ent e ph s = Returned s' \<longrightarrow> phases (fst s') = phases (fst s)"
  shows "(phases (fst s) = pps @ ph # rest \<and> step_phases ent pps s = Returned s0
            \<and> map_of (phase_registrations (fst s0)) ph = Some l \<and> step ent s = Returned s' \<longrightarrow>
          (\<exists>before after.
              lg (snd s0) = lg (snd s) @ before \<and> snd ` set before \<subseteq> set pps
              \<and> lg (snd s') = lg (snd s0) @ map (\<lambda>(i, e). (e, ph)) l @ after
              \<and> snd ` set after \<subseteq> set rest))
   \<and> (distinct (phases (fst s)) \<and> phases (fst s) = pre @ ph1 # mid @ ph2 # post
         \<and> step ent s = Returned s' \<and> lg (snd s') = lg (snd s) @ new \<longrightarrow>
       new \<noteq> A @ (e2, ph2) # B @ (e1, ph1) # C)
   \<and> (step ent s = Returned s' \<longrightarrow>
        (\<exists>s2. step_phases ent (phases (fst s)) s = Returned s2
            \<and> s' = ((fst s2)\<lparr>time := time (fst s2) + 1\<rparr>, snd s2)))
   \<and> ((\<forall>e ph s s'. invoke ent e ph s = Returned s' \<longrightarrow> time (fst s') = time (fst s))
         \<and> step ent s = Returned s' \<longrightarrow>
       time (fst s') = time (fst s) + 1)
   \<and> (\<forall>ph regs s s'. step_entities ent ph regs s = Returned s' \<longrightarrow>
         lg (snd s') = lg (snd s) @ map (\<lambda>(i, e). (e, ph)) regs)
   \<and> ((\<forall>e ph s s'. invoke ent e ph s = Returned s' \<longrightarrow>
          phase_registrations (fst s') = phase_registrations (fst s)
          \<and> phases (fst s') = phases (fst s) \<and> time (fst s') = time (fst s)) \<longrightarrow>
        (\<forall>s s'. step ent s = Returned s' \<longrightarrow>
           lg (snd s') = lg (snd s) @ declared_order (fst s) \<and> time (fst s') = time (fst s) + 1)
        \<and> (\<forall>n s s'. run ent n s = Returned s' \<longrightarrow>
             time (fst s') = time (fst s) + max 0 n
             \<and> lg (snd s') = lg (snd s) @ concat (replicate (nat n) (declared_order (fst s)))))
   \<and> (\<forall>s. run ent 0 s = Returned s)
   \<and> (\<forall>n s. 0 \<le> n \<longrightarrow>
         run ent (n + 1) s
           = (case step ent s of Raised x s1 \<Rightarrow> Raised x s1 | Returned s1 \<Rightarrow> run ent n s1))"
proof -
  have log: "\<And>e ph s s'. invoke ent e ph s = Returned s' \<Longrightarrow> lg (snd s') = lg (snd s) @ [(e, ph)]"
    using logs by blast
  have start: "\<exists>before after.
              lg (snd s0) = lg (snd s) @ before \<and> snd ` set before \<subseteq> set pps
              \<and> lg (snd s') = lg (snd s0) @ map (\<lambda>(i, e). (e, ph)) l @ after
              \<and> snd ` set after \<subseteq> set rest"
    if "phases (fst s) = pps @ ph # rest" "step_phases ent pps s = Returned s0"
      "map_of (phase_registrations (fst s0)) ph = Some l" "step ent s = Returned s'"
    using step_phase_start[of ent lg, OF log that] .
  have strict: "new \<noteq> A @ (e2, ph2) # B @ (e1, ph1) # C"
    if "distinct (phases (fst s))" "phases (fst s) = pre @ ph1 # mid @ ph2 # post"
      "step ent s = Returned s'" "lg (snd s') = lg (snd s) @ new"
    using step_strictly_before[of ent lg, OF log that] .
  have inc: "\<exists>s2. step_phases ent (phases (fst s)) s = Returned s2
            \<and> s' = ((fst s2)\<lparr>time := time (fst s2) + 1\<rparr>, snd s2)"
    if "step ent s = Returned s'"
    using step_returned[OF that] .
  have tm: "time (fst s') = time (fst s) + 1"
    if t: "\<forall>e ph s s'. invoke ent e ph s = Returned s' \<longrightarrow> time (fst s') = time (fst s)"
      and st: "step ent s = Returned s'"
  proof -
    from step_returned[OF st] obtain s2 where
      s2: "step_phases ent (phases (fst s)) s = Returned s2"
      and s': "s' = ((fst s2)\<lparr>time := time (fst s2) + 1\<rparr>, snd s2)"
      by blast
    have "time (fst s2) = time (fst s)"
      using step_phases_frame[of ent time, OF _ s2] t by simp
    then show ?thesis by (simp add: s')
  qed
  have a: "\<forall>ph regs s s'. step_entities ent ph regs s = Returned s' \<longrightarrow>
            lg (snd s') = lg (snd s) @ map (\<lambda>(i, e). (e, ph)) regs"
    using step_entities_log[of ent lg, OF log] by blast
  have b: "(\<forall>s s'. step ent s = Returned s' \<longrightarrow>
           lg (snd s') = lg (snd s) @ declared_order (fst s) \<and> time (fst s') = time (fst s) + 1)
        \<and> (\<forall>n s s'. run ent n s = Returned s' \<longrightarrow>
             time (fst s') = time (fst s) + max 0 n
             \<and> lg (snd s') = lg (snd s) @ concat (replicate (nat n) (declared_order (fst s))))"
    if fr: "\<forall>e ph s s'. invoke ent e ph s = Returned s' \<longrightarrow>
          phase_registrations (fst s') = phase_registrations (fst s)
          \<and> phases (fst s') = phases (fst s) \<and> time (fst s') = time (fst s)"
  proof -
    note log' = logs
    have one: "\<forall>s s'. step ent s = Returned s' \<longrightarrow>
           lg (snd s') = lg (snd s) @ declared_order (fst s) \<and> time (fst s') = time (fst s) + 1"
      using step_log[of ent lg, OF log' fr] by blast
    have many: "time (fst s') = time (fst s) + max 0 n
             \<and> lg (snd s') = lg (snd s) @ concat (replicate (nat n) (declared_order (fst s)))"
      if "run ent n s = Returned s'" for n s s'
      using run_loop_log[of ent lg "nat n" s s', OF log' fr] that
      by (simp add: run_def max_def)
    show ?thesis using one many by blast
  qed
  have c: "\<forall>s. run ent 0 s = Returned s"
    by (simp add: run_def)
  have d: "\<forall>n s. 0 \<le> n \<longrightarrow>
         run ent (n + 1) s
           = (case step ent s of Raised x s1 \<Rightarrow> Raised x s1 | Returned s1 \<Rightarrow> run ent n s1)"
    by (simp add: run_def nat_add_distrib split: outcome.splits)
  show ?thesis using start strict inc tm a b c d by blast
qed

lemma log_ent_invoke: "invoke log_ent e ph (k, w) = Returned (k, w @ [(e, ph)])"
  by (simp add: invoke_def log_ent_def)

lemma step_kernel_ab:
  "step log_ent (kernel_ab, []) = Returned (kernel_ab\<lparr>time := 1\<rparr>, [(2, ''perceive''), (1, ''commit'')])"
  by (simp add: step_def kernel_ab_eq log_ent_invoke)

lemma run_kernel_ab:
  "run log_ent 2 (kernel_ab, []) = Returned (kernel_ab\<lparr>time := 2\<rparr>,
      [(2, ''perceive''), (1, ''commit''), (2, ''perceive''), (1, ''commit'')])"
  by (simp add: run_def numeral_2_eq_2 step_def kernel_ab_eq log_ent_invoke)

lemma step_kernel_a_reg:
  "step reg_ent (kernel_a, [])
     = Returned (kernel_a_grown\<lparr>time := 1\<rparr>, [(1, ''perceive''), (4, ''act'')])"
  by (simp add: step_def kernel_a_eq kernel_a_grown_eq invoke_def reg_ent_def log_ent_def
      register_def)

lemma step_phases_kernel_a_reg:
  "step_phases reg_ent [''perceive''] (kernel_a, [])
     = Returned (kernel_a_grown, [(1, ''perceive'')])"
  by (simp add: kernel_a_eq kernel_a_grown_eq invoke_def reg_ent_def register_def)

theorem step_order_witness:
  "phases kernel_a = [''perceive''] @ ''act'' # [''commit'']
   \<and> step_phases reg_ent [''perceive''] (kernel_a, []) = Returned (kernel_a_grown, [(1, ''perceive'')])
   \<and> map_of (phase_registrations kernel_a) ''act'' = Some []
   \<and> map_of (phase_registrations kernel_a_grown) ''act'' = Some [(''D'', 4)]
   \<and> map_of (phase_registrations kernel_a) ''perceive'' = Some [(''a'', 1)]
   \<and> map_of (phase_registrations kernel_a_grown) ''perceive'' = Some [(''a'', 1), (''E'', 5)]
   \<and> step reg_ent (kernel_a, [])
       = Returned (kernel_a_grown\<lparr>time := 1\<rparr>, [(1, ''perceive''), (4, ''act'')])
   \<and> (\<exists>before after.
          [(1, ''perceive'')] = [] @ before \<and> snd ` set before \<subseteq> set [''perceive'']
          \<and> [(1, ''perceive''), (4, ''act'')]
              = [(1, ''perceive'')] @ map (\<lambda>(i, e). (e, ''act'')) [(''D'', 4::nat)] @ after
          \<and> snd ` set after \<subseteq> set [''commit''])
   \<and> (\<exists>before after.
          ([] :: (nat \<times> string) list) = [] @ before \<and> snd ` set before \<subseteq> set []
          \<and> [(1, ''perceive''), (4, ''act'')]
              = [] @ map (\<lambda>(i, e). (e, ''perceive'')) [(''a'', 1::nat)] @ after
          \<and> snd ` set after \<subseteq> set [''act'', ''commit''])
   \<and> distinct (phases kernel_a)
   \<and> [(1::nat, ''perceive''), (4, ''act'')] \<noteq> [] @ (4, ''act'') # [] @ (1, ''perceive'') # []
   \<and> time (fst (state_of (step reg_ent (kernel_a, [])))) = time kernel_a + 1
   \<and> step log_ent (kernel_ab, []) = Returned (kernel_ab\<lparr>time := 1\<rparr>, [(2, ''perceive''), (1, ''commit'')])
   \<and> declared_order kernel_ab = [(2, ''perceive''), (1, ''commit'')]
   \<and> snd (state_of (step log_ent (kernel_ab, []))) = [] @ declared_order kernel_ab
   \<and> time (fst (state_of (step log_ent (kernel_ab, [])))) = time kernel_ab + 1
   \<and> run log_ent 2 (kernel_ab, [])
       = Returned (kernel_ab\<lparr>time := 2\<rparr>,
           [(2, ''perceive''), (1, ''commit''), (2, ''perceive''), (1, ''commit'')])
   \<and> time (fst (state_of (run log_ent 2 (kernel_ab, [])))) = time kernel_ab + max 0 2
   \<and> snd (state_of (run log_ent 2 (kernel_ab, [])))
       = [] @ concat (replicate (nat 2) (declared_order kernel_ab))
   \<and> run log_ent 0 (kernel_ab, []) = Returned (kernel_ab, [])"
proof -
  let ?ini = "(kernel_a, []) :: (nat, nat) kernel \<times> (nat \<times> string) list"
  let ?mid = "(kernel_a_grown, [(1, ''perceive'')]) :: (nat, nat) kernel \<times> (nat \<times> string) list"
  let ?fin = "(kernel_a_grown\<lparr>time := 1\<rparr>, [(1, ''perceive''), (4, ''act'')])
      :: (nat, nat) kernel \<times> (nat \<times> string) list"
  have rlog: "\<forall>e ph s s'. invoke reg_ent e ph s = Returned s' \<longrightarrow> snd s' = snd s @ [(e, ph)]"
    and rkeep: "\<forall>e ph s s'. invoke reg_ent e ph s = Returned s' \<longrightarrow> phases (fst s') = phases (fst s)"
    and rtime: "\<forall>e ph s s'. invoke reg_ent e ph s = Returned s' \<longrightarrow> time (fst s') = time (fst s)"
    using reg_ent_returned by blast+
  have h1: "phases (fst ?ini) = [''perceive''] @ ''act'' # [''commit'']"
    and h1': "phases (fst ?ini) = [] @ ''perceive'' # [''act'', ''commit'']"
    and hd: "distinct (phases (fst ?ini))"
    and hp: "phases (fst ?ini) = [] @ ''perceive'' # [] @ ''act'' # [''commit'']"
    by (simp_all add: kernel_a_eq)
  have h2: "step_phases reg_ent [''perceive''] ?ini = Returned ?mid"
    by (rule step_phases_kernel_a_reg)
  have h2': "step_phases reg_ent [] ?ini = Returned ?ini"
    by simp
  have h3: "map_of (phase_registrations (fst ?mid)) ''act'' = Some [(''D'', 4)]"
    and h3': "map_of (phase_registrations (fst ?ini)) ''perceive'' = Some [(''a'', 1)]"
    and h3a: "map_of (phase_registrations kernel_a) ''act'' = Some []"
    and h3b: "map_of (phase_registrations kernel_a_grown) ''perceive'' = Some [(''a'', 1), (''E'', 5)]"
    by (simp_all add: kernel_a_eq kernel_a_grown_eq)
  have h4: "step reg_ent ?ini = Returned ?fin"
    by (rule step_kernel_a_reg)
  have hn: "snd ?fin = snd ?ini @ [(1, ''perceive''), (4, ''act'')]"
    by simp
  note r = step_order[of reg_ent "\<lambda>w. w", OF rlog rkeep]
  from r[where s = ?ini and pps = "[''perceive'']" and ph = "''act''" and rest = "[''commit'']"
        and ?s0.0 = ?mid and l = "[(''D'', 4)]" and s' = ?fin] h1 h2 h3 h4
  have c1: "\<exists>before after.
          [(1, ''perceive'')] = [] @ before \<and> snd ` set before \<subseteq> set [''perceive'']
          \<and> [(1, ''perceive''), (4, ''act'')]
              = [(1, ''perceive'')] @ map (\<lambda>(i, e). (e, ''act'')) [(''D'', 4::nat)] @ after
          \<and> snd ` set after \<subseteq> set [''commit'']"
    by simp
  from r[where s = ?ini and pps = "[]" and ph = "''perceive''" and rest = "[''act'', ''commit'']"
        and ?s0.0 = ?ini and l = "[(''a'', 1)]" and s' = ?fin] h1' h2' h3' h4
  have c2: "\<exists>before after.
          ([] :: (nat \<times> string) list) = [] @ before \<and> snd ` set before \<subseteq> set []
          \<and> [(1, ''perceive''), (4, ''act'')]
              = [] @ map (\<lambda>(i, e). (e, ''perceive'')) [(''a'', 1::nat)] @ after
          \<and> snd ` set after \<subseteq> set [''act'', ''commit'']"
    by simp
  from r[where s = ?ini and s' = ?fin and pre = "[]" and ?ph1.0 = "''perceive''" and mid = "[]"
        and ?ph2.0 = "''act''" and post = "[''commit'']" and new = "[(1, ''perceive''), (4, ''act'')]"
        and A = "[]" and ?e2.0 = 4 and B = "[]" and ?e1.0 = 1 and C = "[]"] hd hp h4 hn
  have c3: "[(1::nat, ''perceive''), (4, ''act'')] \<noteq> [] @ (4, ''act'') # [] @ (1, ''perceive'') # []"
    by blast
  from r[where s = ?ini and s' = ?fin] rtime h4
  have "time (fst ?fin) = time (fst ?ini) + 1"
    by blast
  with h4 have c4: "time (fst (state_of (step reg_ent ?ini))) = time kernel_a + 1"
    by simp
  have log: "\<forall>e ph s s'. invoke log_ent e ph s = Returned s' \<longrightarrow> snd s' = snd s @ [(e, ph)]"
    and lkeep: "\<forall>e ph s s'. invoke log_ent e ph s = Returned s' \<longrightarrow> phases (fst s') = phases (fst s)"
    by (auto simp: invoke_def log_ent_def)
  have fr: "\<forall>e ph s s'. invoke log_ent e ph s = Returned s' \<longrightarrow>
          phase_registrations (fst s') = phase_registrations (fst s)
          \<and> phases (fst s') = phases (fst s) \<and> time (fst s') = time (fst s)"
    by (auto simp: invoke_def log_ent_def)
  have d: "declared_order kernel_ab = [(2, ''perceive''), (1, ''commit'')]"
    by (simp add: declared_order_def order_of_def kernel_ab_eq)
  note t = step_order[of log_ent "\<lambda>w. w", OF log lkeep]
  note t6 = t[THEN conjunct2, THEN conjunct2, THEN conjunct2, THEN conjunct2, THEN conjunct2]
  note t7 = t6[THEN conjunct1, THEN mp, OF fr]
  have one: "\<forall>s s'. step log_ent s = Returned s' \<longrightarrow>
           snd s' = snd s @ declared_order (fst s) \<and> time (fst s') = time (fst s) + 1"
    by (rule t7[THEN conjunct1])
  have many: "\<forall>n s s'. run log_ent n s = Returned s' \<longrightarrow>
             time (fst s') = time (fst s) + max 0 n
             \<and> snd s' = snd s @ concat (replicate (nat n) (declared_order (fst s)))"
    by (rule t7[THEN conjunct2])
  from t6[THEN conjunct2, THEN conjunct1] have zero: "run log_ent 0 (kernel_ab, []) = Returned (kernel_ab, [])"
    by simp
  from one[rule_format, OF step_kernel_ab] step_kernel_ab
  have e1: "snd (state_of (step log_ent (kernel_ab, []))) = [] @ declared_order kernel_ab"
    "time (fst (state_of (step log_ent (kernel_ab, [])))) = time kernel_ab + 1"
    by simp_all
  from many[rule_format, OF run_kernel_ab] run_kernel_ab
  have e2: "time (fst (state_of (run log_ent 2 (kernel_ab, [])))) = time kernel_ab + max 0 2"
    "snd (state_of (run log_ent 2 (kernel_ab, [])))
       = [] @ concat (replicate (nat 2) (declared_order kernel_ab))"
    by simp_all
  have h1k: "phases kernel_a = [''perceive''] @ ''act'' # [''commit'']" "distinct (phases kernel_a)"
    using h1 hd by simp_all
  have h3k: "map_of (phase_registrations kernel_a_grown) ''act'' = Some [(''D'', 4)]"
    "map_of (phase_registrations kernel_a) ''perceive'' = Some [(''a'', 1)]"
    using h3 h3' by simp_all
  show ?thesis
    by (intro conjI h1k h2 h3a h3k h3b h4 c1 c2 c3 c4 step_kernel_ab d e1 e2 run_kernel_ab zero)
qed

text \<open>
  Without the condition of (2) the order fails. In \<open>kernel_pqp\<close> the phase \<open>p\<close> is
  declared before \<open>q\<close> and again after it: one tick invokes \<open>A\<close> (phase \<open>p\<close>), \<open>B\<close>
  (phase \<open>q\<close>) and \<open>A\<close> again, so an entity of the earlier phase \<open>p\<close> is invoked after
  an entity of the later phase \<open>q\<close>.
\<close>

theorem repeated_phase_runs_again:
  "phases kernel_pqp = [] @ ''p'' # [] @ ''q'' # [''p'']
   \<and> \<not> distinct (phases kernel_pqp)
   \<and> map_of (phase_registrations kernel_pqp) ''p'' = Some [(''A'', 1)]
   \<and> map_of (phase_registrations kernel_pqp) ''q'' = Some [(''B'', 2)]
   \<and> step log_ent (kernel_pqp, [])
       = Returned (kernel_pqp\<lparr>time := 1\<rparr>, [(1, ''p''), (2, ''q''), (1, ''p'')])
   \<and> [(1::nat, ''p''), (2, ''q''), (1, ''p'')] = [(1, ''p'')] @ (2, ''q'') # [] @ (1, ''p'') # []"
  by (simp add: kernel_pqp_eq step_def log_ent_invoke)

subsection \<open>Registering a handle twice\<close>

lemma fold_update_empty:
  "distinct ps \<Longrightarrow> set ps \<inter> fst ` set acc = {} \<Longrightarrow>
     fold (\<lambda>p d. AList.update p [] d) ps acc = acc @ map (\<lambda>p. (p, [])) ps"
proof (induction ps arbitrary: acc)
  case Nil
  then show ?case by simp
next
  case (Cons p ps)
  have new: "AList.update p [] acc = acc @ [(p, [])]"
    using Cons.prems by (intro update_append_new) auto
  have "fold (\<lambda>p d. AList.update p [] d) ps (acc @ [(p, [])])
          = (acc @ [(p, [])]) @ map (\<lambda>p. (p, [])) ps"
    using Cons.prems by (intro Cons.IH) auto
  then show ?case by (simp add: new)
qed

lemma concat_map_nil: "concat (map (\<lambda>p. []) ps) = []"
  by (induction ps) auto

lemma Kernel_registry_ok:
  assumes "case phs of None \<Rightarrow> True | Some ps \<Rightarrow> distinct ps"
  shows "registry_ok (Kernel L sd phs)"
proof -
  define ps where "ps = (case phs of
                  None \<Rightarrow> [''perceive'', ''act'', ''commit'']
                | Some [] \<Rightarrow> [''perceive'', ''act'', ''commit'']
                | Some l \<Rightarrow> l)"
  have d: "distinct ps"
    using assms by (auto simp: ps_def split: option.splits list.splits)
  have f: "fold (\<lambda>p d. AList.update p [] d) ps [] = map (\<lambda>p. (p, [])) ps"
    using fold_update_empty[OF d, of "[]"] by simp
  have k: "Kernel L sd phs = \<lparr>time = 0, rng_manager = RNGManager L sd, entities = [],
      phases = ps, phase_registrations = map (\<lambda>p. (p, [])) ps\<rparr>"
    using f by (simp add: Kernel_def ps_def Let_def)
  show ?thesis
    using d by (simp add: k registry_ok_def comp_def concat_map_nil)
qed

lemma update_split:
  "map_of regs p = Some l \<Longrightarrow>
     \<exists>r1 r2. regs = r1 @ (p, l) # r2 \<and> AList.update p v regs = r1 @ (p, v) # r2"
proof (induction regs)
  case Nil
  then show ?case by simp
next
  case (Cons a regs)
  show ?case
  proof (cases "fst a = p")
    case True
    with Cons.prems have "a = (p, l)" by (cases a) auto
    then have "a # regs = [] @ (p, l) # regs \<and> AList.update p v (a # regs) = [] @ (p, v) # regs"
      by simp
    then show ?thesis by blast
  next
    case False
    with Cons.prems have "map_of regs p = Some l" by (cases a) auto
    from Cons.IH[OF this] obtain r1 r2 where
      "regs = r1 @ (p, l) # r2" "AList.update p v regs = r1 @ (p, v) # r2"
      by blast
    with False have "a # regs = (a # r1) @ (p, l) # r2
        \<and> AList.update p v (a # regs) = (a # r1) @ (p, v) # r2"
      by (cases a) auto
    then show ?thesis by blast
  qed
qed

lemma register_new:
  assumes "register k i e ph = Returned k1" and "e \<notin> snd ` set (entities k)"
  shows "\<exists>p l r1 r2. phase_registrations k = r1 @ (p, l) # r2
           \<and> k1 = k\<lparr>entities := entities k @ [(i, e)],
                    phase_registrations := r1 @ (p, l @ [(i, e)]) # r2\<rparr>"
proof -
  have nd: "\<not> list_ex (\<lambda>(_, e'). e = e') (entities k)"
    using assms(2) by (force simp: list_ex_iff)
  from assms(1) nd obtain p l where l: "map_of (phase_registrations k) p = Some l"
    and k1: "k1 = k\<lparr>entities := entities k @ [(i, e)],
                    phase_registrations := AList.update p (l @ [(i, e)]) (phase_registrations k)\<rparr>"
    by (auto simp: register_def Let_def split: sum.splits option.splits if_splits list.splits)
  from update_split[OF l, of "l @ [(i, e)]"] obtain r1 r2 where
    "phase_registrations k = r1 @ (p, l) # r2"
    "AList.update p (l @ [(i, e)]) (phase_registrations k) = r1 @ (p, l @ [(i, e)]) # r2"
    by blast
  with k1 show ?thesis by metis
qed

lemma register_old:
  assumes "register k i e ph = Returned k1" and "e \<in> snd ` set (entities k)"
  shows "k1 = k"
proof -
  have "list_ex (\<lambda>(_, e'). e = e') (entities k)"
    using assms(2) by (force simp: list_ex_iff)
  with assms(1) show ?thesis
    by (auto simp: register_def Let_def split: sum.splits option.splits if_splits list.splits)
qed

lemma register_registry_ok:
  assumes ok: "registry_ok k" and r: "register k i e ph = Returned k1"
  shows "registry_ok k1 \<and> e \<in> snd ` set (entities k1)"
proof (cases "e \<in> snd ` set (entities k)")
  case True
  with register_old[OF r True] ok show ?thesis by simp
next
  case False
  from register_new[OF r False] obtain p l r1 r2 where
    regs: "phase_registrations k = r1 @ (p, l) # r2"
    and k1: "k1 = k\<lparr>entities := entities k @ [(i, e)],
                    phase_registrations := r1 @ (p, l @ [(i, e)]) # r2\<rparr>"
    by blast
  from ok have s: "set (concat (map snd (phase_registrations k))) = set (entities k)"
    by (simp add: registry_ok_def)
  have notin: "e \<notin> snd ` set (concat (map snd (phase_registrations k)))"
    using False s by simp
  show ?thesis
    using ok False notin s
    by (auto simp: registry_ok_def k1 regs)
qed

lemma order_of_skip: "p \<notin> set qs \<Longrightarrow> order_of ((p, l) # r) qs = order_of r qs"
  by (induction qs) (auto simp: order_of_def)

lemma order_of_keys:
  "distinct (map fst regs) \<Longrightarrow>
     map fst (order_of regs (map fst regs)) = map snd (concat (map snd regs))"
proof (induction regs)
  case Nil
  then show ?case by (simp add: order_of_def)
next
  case (Cons a regs)
  obtain p l where a: "a = (p, l)" by (cases a)
  have "order_of ((p, l) # regs) (p # map fst regs)
          = map (\<lambda>(i, e). (e, p)) l @ order_of ((p, l) # regs) (map fst regs)"
    by (simp add: order_of_def)
  also have "order_of ((p, l) # regs) (map fst regs) = order_of regs (map fst regs)"
    using Cons.prems by (intro order_of_skip) (simp add: a)
  finally show ?case
    using Cons by (simp add: a comp_def case_prod_beta)
qed

lemma distinct_count_list: "distinct xs \<Longrightarrow> x \<in> set xs \<Longrightarrow> count_list xs x = 1"
  by (induction xs) auto


lemma registry_ok_counts:
  assumes ok: "registry_ok k" and e: "e \<in> snd ` set (entities k)"
  shows "count_list (map snd (entities k)) e = 1
       \<and> count_list (map snd (concat (map snd (phase_registrations k)))) e = 1
       \<and> count_list (map fst (declared_order k)) e = 1"
proof -
  from ok have d1: "distinct (map snd (entities k))"
    and d2: "distinct (map snd (concat (map snd (phase_registrations k))))"
    and s: "set (concat (map snd (phase_registrations k))) = set (entities k)"
    and ks: "map fst (phase_registrations k) = phases k"
    and dp: "distinct (phases k)"
    by (simp_all add: registry_ok_def)
  have e2: "e \<in> set (map snd (concat (map snd (phase_registrations k))))"
    using e s by simp
  have o: "map fst (declared_order k) = map snd (concat (map snd (phase_registrations k)))"
    using order_of_keys[of "phase_registrations k"] ks dp by (simp add: declared_order_def)
  show ?thesis
    using distinct_count_list[OF d1] distinct_count_list[OF d2 e2] e o by simp
qed

lemma kernel_pp_eq:
  "kernel_pp = \<lparr>time = 0, rng_manager = \<lparr>master_seed = 0, master = 0, streams = []\<rparr>,
     entities = [(''a'', 1)], phases = [''p'', ''p''],
     phase_registrations = [(''p'', [(''a'', 1)])]\<rparr>"
  by (simp add: kernel_pp_def Kernel_def RNGManager_def lib0_simps register_def)

text \<open>
  C8, as the code has it. Let the registry be consistent (\<open>registry_ok\<close>; the constructor
  gives such a registry when the phase names are pairwise distinct, and \<open>register\<close>
  keeps it). After a registration of the handle \<open>e\<close> that returns, a second registration
  of \<open>e\<close>, under any id and any declared phase or none, returns the same kernel; the
  handle has exactly one entry in the entity list and exactly one in the phase lists,
  it occurs exactly once in the order of a tick, and a tick whose hooks log themselves
  and leave registry, phase list and time alone logs it exactly once.
\<close>

theorem register_twice:
  assumes ok: "registry_ok k"
      and r1: "register k id1 e ph1 = Returned k1"
      and valid: "case ph2 of None \<Rightarrow> True | Some p \<Rightarrow> p \<in> set (phases k1)"
  shows "register k1 id2 e ph2 = Returned k1
       \<and> registry_ok k1
       \<and> count_list (map snd (entities k1)) e = 1
       \<and> count_list (map snd (concat (map snd (phase_registrations k1)))) e = 1
       \<and> count_list (map fst (declared_order k1)) e = 1
       \<and> ((\<forall>e ph s s'. invoke ent e ph s = Returned s' \<longrightarrow> lg (snd s') = lg (snd s) @ [(e, ph)])
          \<and> (\<forall>e ph s s'. invoke ent e ph s = Returned s' \<longrightarrow>
                phase_registrations (fst s') = phase_registrations (fst s)
                \<and> phases (fst s') = phases (fst s) \<and> time (fst s') = time (fst s))
          \<and> step ent (k1, w) = Returned s' \<longrightarrow>
            count_list (map fst (lg (snd s'))) e = count_list (map fst (lg w)) e + 1)
       \<and> ((case phs of None \<Rightarrow> True | Some ps \<Rightarrow> distinct ps) \<longrightarrow>
            registry_ok (Kernel L sd phs :: ('g, 'e) kernel))"
proof -
  from register_registry_ok[OF ok r1] have ok1: "registry_ok k1"
    and e1: "e \<in> snd ` set (entities k1)"
    by simp_all
  have ex: "list_ex (\<lambda>(_, e'). e = e') (entities k1)"
    using e1 by (force simp: list_ex_iff)
  have ne: "phases k1 \<noteq> []"
  proof
    assume emp: "phases k1 = []"
    from ok1 e1 have "set (concat (map snd (phase_registrations k1))) \<noteq> {}"
      by (auto simp: registry_ok_def)
    moreover from ok1 emp have "phase_registrations k1 = []"
      by (simp add: registry_ok_def)
    ultimately show False by simp
  qed
  have again: "register k1 id2 e ph2 = Returned k1"
    using ex ne valid by (cases "phases k1") (auto simp: register_def split: option.splits)
  note cnt = registry_ok_counts[OF ok1 e1]
  have tick: "count_list (map fst (lg (snd s'))) e = count_list (map fst (lg w)) e + 1"
    if log: "\<forall>e ph s s'. invoke ent e ph s = Returned s' \<longrightarrow> lg (snd s') = lg (snd s) @ [(e, ph)]"
      and fr: "\<forall>e ph s s'. invoke ent e ph s = Returned s' \<longrightarrow>
                phase_registrations (fst s') = phase_registrations (fst s)
                \<and> phases (fst s') = phases (fst s) \<and> time (fst s') = time (fst s)"
      and st: "step ent (k1, w) = Returned s'"
    using step_log[OF log fr st] cnt by simp
  have ctor: "registry_ok (Kernel L sd phs :: ('g, 'e) kernel)"
    if "case phs of None \<Rightarrow> True | Some ps \<Rightarrow> distinct ps"
    using Kernel_registry_ok[OF that] .
  show ?thesis using again ok1 cnt tick ctor by blast
qed

theorem register_twice_witness:
  "registry_ok kernel0
   \<and> register kernel0 ''a'' 1 None = Returned kernel_a
   \<and> ''act'' \<in> set (phases kernel_a)
   \<and> register kernel_a ''other'' 1 (Some ''act'') = Returned kernel_a
   \<and> registry_ok kernel_a
   \<and> count_list (map snd (entities kernel_a)) 1 = 1
   \<and> count_list (map snd (concat (map snd (phase_registrations kernel_a)))) 1 = 1
   \<and> count_list (map fst (declared_order kernel_a)) 1 = 1
   \<and> step log_ent (kernel_a, []) = Returned (kernel_a\<lparr>time := 1\<rparr>, [(1, ''perceive'')])
   \<and> count_list (map fst (snd (kernel_a\<lparr>time := 1\<rparr>, [(1::nat, ''perceive'')]))) 1
       = count_list (map fst ([] :: (nat \<times> string) list)) 1 + 1
   \<and> distinct [''perceive'', ''act'']
   \<and> registry_ok (Kernel lib0 0 (Some [''perceive'', ''act'']) :: (nat, nat) kernel)"
proof -
  have ok: "registry_ok kernel0"
    by (simp add: registry_ok_def kernel0_eq)
  have r1: "register kernel0 ''a'' 1 None = Returned kernel_a"
    by (simp add: kernel_a_eq kernel0_eq register_def)
  have v: "''act'' \<in> set (phases kernel_a)"
    by (simp add: kernel_a_eq)
  have valid: "case Some ''act'' of None \<Rightarrow> True | Some p \<Rightarrow> p \<in> set (phases kernel_a)"
    using v by simp
  have log: "\<forall>e ph s s'. invoke log_ent e ph s = Returned s' \<longrightarrow> snd s' = snd s @ [(e, ph)]"
    by (auto simp: invoke_def log_ent_def)
  have fr: "\<forall>e ph s s'. invoke log_ent e ph s = Returned s' \<longrightarrow>
          phase_registrations (fst s') = phase_registrations (fst s)
          \<and> phases (fst s') = phases (fst s) \<and> time (fst s') = time (fst s)"
    by (auto simp: invoke_def log_ent_def)
  have st: "step log_ent (kernel_a, []) = Returned (kernel_a\<lparr>time := 1\<rparr>, [(1, ''perceive'')])"
    by (simp add: step_def kernel_a_eq log_ent_invoke)
  have dp: "distinct [''perceive'', ''act'']"
    by simp
  have dp': "case Some [''perceive'', ''act''] of None \<Rightarrow> True | Some ps \<Rightarrow> distinct ps"
    by simp
  note t = register_twice[OF ok r1 valid, of "''other''" log_ent "\<lambda>w. w" "[]"
      "(kernel_a\<lparr>time := 1\<rparr>, [(1, ''perceive'')])" "Some [''perceive'', ''act'']" lib0 0]
  from t have c1: "register kernel_a ''other'' 1 (Some ''act'') = Returned kernel_a"
    and c2: "registry_ok kernel_a"
    and c3: "count_list (map snd (entities kernel_a)) 1 = 1"
    and c4: "count_list (map snd (concat (map snd (phase_registrations kernel_a)))) 1 = 1"
    and c5: "count_list (map fst (declared_order kernel_a)) 1 = 1"
    by blast+
  from t log fr st have c6: "count_list (map fst (snd (kernel_a\<lparr>time := 1\<rparr>, [(1::nat, ''perceive'')]))) 1
       = count_list (map fst ([] :: (nat \<times> string) list)) 1 + 1"
    by blast
  from t dp' have c7: "registry_ok (Kernel lib0 0 (Some [''perceive'', ''act'']) :: (nat, nat) kernel)"
    by blast
  show ?thesis
    by (intro conjI ok r1 v c1 c2 c3 c4 c5 st c6 dp c7)
qed

text \<open>
  C8, as the specification words it for every kernel, fails when a phase name is
  declared twice: \<open>Kernel(seed=0, phases=['p', 'p'])\<close> has one phase list under the key
  \<open>p\<close>, the handle registered twice has one entry in the entity list and one in that
  phase list, and \<open>step\<close> runs the list once for each occurrence of \<open>p\<close>, so the entity is
  invoked twice in one tick.
\<close>

theorem duplicate_phase_invokes_twice:
  "Kernel lib0 0 (Some [''p'', ''p''])
     = \<lparr>time = 0, rng_manager = \<lparr>master_seed = 0, master = 0, streams = []\<rparr>,
        entities = [], phases = [''p'', ''p''], phase_registrations = [(''p'', [])]\<rparr>
   \<and> register (Kernel lib0 0 (Some [''p'', ''p''])) ''a'' (1::nat) None = Returned kernel_pp
   \<and> register kernel_pp ''a'' 1 None = Returned kernel_pp
   \<and> count_list (map snd (entities kernel_pp)) 1 = 1
   \<and> count_list (map snd (concat (map snd (phase_registrations kernel_pp)))) 1 = 1
   \<and> step log_ent (kernel_pp, []) = Returned (kernel_pp\<lparr>time := 1\<rparr>, [(1, ''p''), (1, ''p'')])"
  by (simp add: kernel_pp_eq Kernel_def RNGManager_def lib0_simps register_def step_def
      log_ent_invoke)

subsection \<open>Two runs that differ in the identity of their entities\<close>

lemma map_of_apsnd: "map_of (map (apsnd g) al) p = map_option g (map_of al p)"
  by (induction al) auto

lemma step_entities_rel:
  assumes hooks: "\<forall>e ph s1 s2. state_rel M f s1 s2 \<longrightarrow>
            outcome_rel (state_rel M f) (invoke ent1 e ph s1) (invoke ent2 (f e) ph s2)"
  shows "state_rel M f s1 s2 \<Longrightarrow>
           outcome_rel (state_rel M f) (step_entities ent1 ph regs s1)
             (step_entities ent2 ph (map (apsnd f) regs) s2)"
proof (induction regs arbitrary: s1 s2)
  case Nil
  then show ?case by simp
next
  case (Cons a regs)
  obtain i e where a: "a = (i, e)" by (cases a)
  from hooks Cons.prems
  have h: "outcome_rel (state_rel M f) (invoke ent1 e ph s1) (invoke ent2 (f e) ph s2)"
    by blast
  show ?case
  proof (cases "invoke ent1 e ph s1")
    case (Returned t1)
    with h obtain t2 where t2: "invoke ent2 (f e) ph s2 = Returned t2" and r: "state_rel M f t1 t2"
      by (cases "invoke ent2 (f e) ph s2") auto
    from Cons.IH[OF r] Returned t2 show ?thesis by (simp add: a)
  next
    case (Raised x t1)
    with h obtain t2 where t2: "invoke ent2 (f e) ph s2 = Raised x t2" and r: "state_rel M f t1 t2"
      by (cases "invoke ent2 (f e) ph s2") auto
    from r Raised t2 show ?thesis by (simp add: a)
  qed
qed

lemma step_phases_rel:
  assumes hooks: "\<forall>e ph s1 s2. state_rel M f s1 s2 \<longrightarrow>
            outcome_rel (state_rel M f) (invoke ent1 e ph s1) (invoke ent2 (f e) ph s2)"
  shows "state_rel M f s1 s2 \<Longrightarrow>
           outcome_rel (state_rel M f) (step_phases ent1 ps s1) (step_phases ent2 ps s2)"
proof (induction ps arbitrary: s1 s2)
  case Nil
  then show ?case by simp
next
  case (Cons ph ps)
  from Cons.prems have regs: "phase_registrations (fst s2)
      = map (apsnd (map (apsnd f))) (phase_registrations (fst s1))"
    by (simp add: state_rel_def kernel_rel_def)
  show ?case
  proof (cases "map_of (phase_registrations (fst s1)) ph")
    case None
    then have "map_of (phase_registrations (fst s2)) ph = None"
      by (simp add: regs map_of_apsnd)
    with None Cons.prems show ?thesis by simp
  next
    case (Some l)
    then have l2: "map_of (phase_registrations (fst s2)) ph = Some (map (apsnd f) l)"
      by (simp add: regs map_of_apsnd)
    note h = step_entities_rel[OF hooks Cons.prems, of ph l]
    show ?thesis
    proof (cases "step_entities ent1 ph l s1")
      case (Returned t1)
      with h obtain t2 where t2: "step_entities ent2 ph (map (apsnd f) l) s2 = Returned t2"
        and r: "state_rel M f t1 t2"
        by (cases "step_entities ent2 ph (map (apsnd f) l) s2") auto
      from Cons.IH[OF r] Some l2 Returned t2 show ?thesis by simp
    next
      case (Raised x t1)
      with h obtain t2 where t2: "step_entities ent2 ph (map (apsnd f) l) s2 = Raised x t2"
        and r: "state_rel M f t1 t2"
        by (cases "step_entities ent2 ph (map (apsnd f) l) s2") auto
      from r Some l2 Raised t2 show ?thesis by simp
    qed
  qed
qed

lemma step_rel:
  assumes hooks: "\<forall>e ph s1 s2. state_rel M f s1 s2 \<longrightarrow>
            outcome_rel (state_rel M f) (invoke ent1 e ph s1) (invoke ent2 (f e) ph s2)"
      and r: "state_rel M f s1 s2"
  shows "outcome_rel (state_rel M f) (step ent1 s1) (step ent2 s2)"
proof -
  from r have ph: "phases (fst s2) = phases (fst s1)"
    by (simp add: state_rel_def kernel_rel_def)
  note h = step_phases_rel[OF hooks r, of "phases (fst s1)"]
  show ?thesis
  proof (cases "step_phases ent1 (phases (fst s1)) s1")
    case (Returned t1)
    with h obtain t2 where t2: "step_phases ent2 (phases (fst s1)) s2 = Returned t2"
      and r2: "state_rel M f t1 t2"
      by (cases "step_phases ent2 (phases (fst s1)) s2") auto
    from r2 Returned t2 show ?thesis
      by (cases t1; cases t2) (simp add: step_def ph state_rel_def kernel_rel_def)
  next
    case (Raised x t1)
    with h obtain t2 where t2: "step_phases ent2 (phases (fst s1)) s2 = Raised x t2"
      and r2: "state_rel M f t1 t2"
      by (cases "step_phases ent2 (phases (fst s1)) s2") auto
    from r2 Raised t2 show ?thesis by (simp add: step_def ph)
  qed
qed

lemma run_loop_rel:
  assumes hooks: "\<forall>e ph s1 s2. state_rel M f s1 s2 \<longrightarrow>
            outcome_rel (state_rel M f) (invoke ent1 e ph s1) (invoke ent2 (f e) ph s2)"
  shows "state_rel M f s1 s2 \<Longrightarrow>
           outcome_rel (state_rel M f) (run_loop ent1 n s1) (run_loop ent2 n s2)"
proof (induction n arbitrary: s1 s2)
  case 0
  then show ?case by simp
next
  case (Suc n)
  note h = step_rel[OF hooks Suc.prems]
  show ?case
  proof (cases "step ent1 s1")
    case (Returned t1)
    with h obtain t2 where t2: "step ent2 s2 = Returned t2" and r: "state_rel M f t1 t2"
      by (cases "step ent2 s2") auto
    from Suc.IH[OF r] Returned t2 show ?thesis by simp
  next
    case (Raised x t1)
    with h obtain t2 where t2: "step ent2 s2 = Raised x t2" and r: "state_rel M f t1 t2"
      by (cases "step ent2 s2") auto
    from r Raised t2 show ?thesis by simp
  qed
qed

lemma update_apsnd:
  "map (apsnd g) (AList.update p v al) = AList.update p (g v) (map (apsnd g) al)"
  by (induction al) auto

lemma list_ex_apsnd:
  "inj f \<Longrightarrow> list_ex (\<lambda>(_, e'). f e = e') (map (apsnd f) al) = list_ex (\<lambda>(_, e'). e = e') al"
  by (induction al) (auto simp: inj_eq)

lemma register_rel:
  assumes f: "inj f" and r: "kernel_rel M f k1 k2"
  shows "outcome_rel (kernel_rel M f) (register k1 i e ph) (register k2 i (f e) ph)"
proof -
  from r have t: "time k1 = time k2" and p: "phases k2 = phases k1"
    and m: "M (rng_manager k1) (rng_manager k2)"
    and es: "entities k2 = map (apsnd f) (entities k1)"
    and rs: "phase_registrations k2 = map (apsnd (map (apsnd f))) (phase_registrations k1)"
    by (simp_all add: kernel_rel_def)
  have step: "outcome_rel (kernel_rel M f)
      (if q \<notin> set (phases k1) then Raised (ValueError (''Unknown phase: '' @ q)) k1
       else if list_ex (\<lambda>(_, e'). e = e') (entities k1) then Returned k1
       else (let k1' = k1\<lparr>entities := entities k1 @ [(i, e)]\<rparr>
             in case map_of (phase_registrations k1') q of
                  None \<Rightarrow> Raised (KeyError q) k1'
                | Some l \<Rightarrow> Returned (k1'\<lparr>phase_registrations :=
                      AList.update q (l @ [(i, e)]) (phase_registrations k1')\<rparr>)))
      (if q \<notin> set (phases k2) then Raised (ValueError (''Unknown phase: '' @ q)) k2
       else if list_ex (\<lambda>(_, e'). f e = e') (entities k2) then Returned k2
       else (let k2' = k2\<lparr>entities := entities k2 @ [(i, f e)]\<rparr>
             in case map_of (phase_registrations k2') q of
                  None \<Rightarrow> Raised (KeyError q) k2'
                | Some l \<Rightarrow> Returned (k2'\<lparr>phase_registrations :=
                      AList.update q (l @ [(i, f e)]) (phase_registrations k2')\<rparr>)))" for q
    using r f
    by (auto simp: p es rs list_ex_apsnd map_of_apsnd update_apsnd kernel_rel_def Let_def
        split: option.splits)
  show ?thesis
  proof (cases ph)
    case (Some q)
    with step[of q] show ?thesis by (simp add: register_def)
  next
    case None
    show ?thesis
    proof (cases "phases k1")
      case Nil
      with None r show ?thesis by (simp add: register_def p)
    next
      case (Cons q qs)
      with None step[of q] show ?thesis by (simp add: register_def p)
    qed
  qed
qed

lemma register_all_rel:
  assumes f: "inj f"
  shows "kernel_rel M f k1 k2 \<Longrightarrow>
    outcome_rel (kernel_rel M f) (register_all k1 regs)
      (register_all k2 (map (\<lambda>(i, e, ph). (i, f e, ph)) regs))"
proof (induction regs arbitrary: k1 k2)
  case Nil
  then show ?case by simp
next
  case (Cons a regs)
  obtain i e ph where a: "a = (i, e, ph)" by (cases a)
  note h = register_rel[OF f Cons.prems, of i e ph]
  show ?case
  proof (cases "register k1 i e ph")
    case (Returned t1)
    with h obtain t2 where t2: "register k2 i (f e) ph = Returned t2" and r: "kernel_rel M f t1 t2"
      by (cases "register k2 i (f e) ph") auto
    from Cons.IH[OF r] Returned t2 show ?thesis by (simp add: a)
  next
    case (Raised x t1)
    with h obtain t2 where t2: "register k2 i (f e) ph = Raised x t2" and r: "kernel_rel M f t1 t2"
      by (cases "register k2 i (f e) ph") auto
    from r Raised t2 show ?thesis by (simp add: a)
  qed
qed

lemma fold_update_apsnd:
  "map (apsnd g) (fold (\<lambda>p d. AList.update p [] d) ps acc)
     = fold (\<lambda>p d. AList.update p (g []) d) ps (map (apsnd g) acc)"
  by (induction ps arbitrary: acc) (simp_all add: update_apsnd)

lemma Kernel_rel: "kernel_rel (=) f (Kernel L sd phs) (Kernel L sd phs)"
  by (simp add: kernel_rel_def Kernel_def Let_def fold_update_apsnd)

lemma outcome_rel_state:
  assumes "outcome_rel (state_rel (=) f) o1 o2"
  shows "raised o1 = raised o2
       \<and> time (fst (state_of o1)) = time (fst (state_of o2))
       \<and> rng_manager (fst (state_of o1)) = rng_manager (fst (state_of o2))
       \<and> snd (state_of o1) = snd (state_of o2)"
  using assms by (cases o1; cases o2) (auto simp: state_rel_def kernel_rel_def)

lemma positions_update:
  "map (\<lambda>(name, s). (name, rng s)) (AList.update k v al)
     = AList.update k (rng v) (map (\<lambda>(name, s). (name, rng s)) al)"
  by (induction al) auto

lemma positions_lookup:
  "map_of (map (\<lambda>(name, s). (name, rng s)) al) k = map_option rng (map_of al k)"
  by (induction al) auto

lemma positions_names: "map fst (map (\<lambda>(name, s). (name, rng s)) al) = map fst al"
  by (induction al) auto

lemma same_positions_names:
  "same_positions m1 m2 \<Longrightarrow> map fst (streams m1) = map fst (streams m2)"
proof -
  assume "same_positions m1 m2"
  then have "map fst (map (\<lambda>(name, s). (name, rng s)) (streams m1))
      = map fst (map (\<lambda>(name, s). (name, rng s)) (streams m2))"
    by (simp add: same_positions_def positions_def)
  then show ?thesis by (simp only: positions_names)
qed

lemma get_stream_positions:
  assumes "same_positions m1 m2"
  shows "same_positions (get_stream L m1 name) (get_stream L m2 name)"
proof -
  from assms have ms: "master m1 = master m2"
    and ps: "map (\<lambda>(name, s). (name, rng s)) (streams m1)
              = map (\<lambda>(name, s). (name, rng s)) (streams m2)"
    by (simp_all add: same_positions_def positions_def)
  note ns = same_positions_names[OF assms]
  show ?thesis
  proof (cases "name \<in> set (map fst (streams m1))")
    case True
    with ns assms show ?thesis by (simp add: get_stream_def)
  next
    case False
    with ns have F2: "name \<notin> set (map fst (streams m2))" by simp
    from False F2 show ?thesis
      by (simp add: get_stream_def derive_seed_def same_positions_def positions_def ms
          positions_update ps split: prod.splits)
  qed
qed

lemma handle_random_positions:
  assumes "same_positions m1 m2"
  shows "rel_option (\<lambda>r1 r2. fst r1 = fst r2 \<and> same_positions (snd r1) (snd r2))
           (handle_random L m1 name) (handle_random L m2 name)"
proof -
  from assms have ms: "master m1 = master m2"
    and ps: "map (\<lambda>(name, s). (name, rng s)) (streams m1)
              = map (\<lambda>(name, s). (name, rng s)) (streams m2)"
    by (simp_all add: same_positions_def positions_def)
  have lk: "map_option rng (map_of (streams m1) name) = map_option rng (map_of (streams m2) name)"
    using positions_lookup[of "streams m1" name] positions_lookup[of "streams m2" name] ps
    by simp
  show ?thesis
  proof (cases "map_of (streams m1) name")
    case None
    with lk have "map_of (streams m2) name = None" by simp
    with None show ?thesis by (simp add: handle_random_def)
  next
    case (Some s1)
    with lk obtain s2 where s2: "map_of (streams m2) name = Some s2" and r: "rng s1 = rng s2"
      by (cases "map_of (streams m2) name") auto
    from Some s2 r show ?thesis
      by (simp add: handle_random_def stream_random_def same_positions_def positions_def ms
          positions_update ps split: prod.splits)
  qed
qed

lemma draws_positions:
  "same_positions m1 m2 \<Longrightarrow> draws L m1 name j = draws L m2 name j"
proof (induction j arbitrary: m1 m2)
  case 0
  then show ?case by simp
next
  case (Suc j)
  note h = handle_random_positions[OF get_stream_positions[OF Suc.prems, of L name], of L name]
  show ?case
  proof (cases "handle_random L (get_stream L m1 name) name")
    case None
    with h show ?thesis by (cases "handle_random L (get_stream L m2 name) name") auto
  next
    case (Some r1)
    with h obtain r2 where r2: "handle_random L (get_stream L m2 name) name = Some r2"
      and v: "fst r1 = fst r2" and p: "same_positions (snd r1) (snd r2)"
      by (cases "handle_random L (get_stream L m2 name) name") auto
    from Suc.IH[OF p] Some r2 v show ?thesis
      by (cases r1; cases r2) simp
  qed
qed

lemma act_rel:
  assumes get: "\<forall>m1 m2 name. M m1 m2 \<longrightarrow> M (get_stream L m1 name) (get_stream L m2 name)"
      and draw: "\<forall>m1 m2 name. M m1 m2 \<longrightarrow>
                  rel_option (\<lambda>r1 r2. fst r1 = fst r2 \<and> M (snd r1) (snd r2))
                    (handle_random L m1 name) (handle_random L m2 name)"
      and r: "state_rel M f s1 s2"
  shows "outcome_rel (state_rel M f) (act L agent_id s1) (act L agent_id s2)"
proof -
  obtain k1 w1 where s1: "s1 = (k1, w1)" by (cases s1)
  obtain k2 w2 where s2: "s2 = (k2, w2)" by (cases s2)
  from r have w: "w2 = w1" and kr: "kernel_rel M f k1 k2"
    by (simp_all add: state_rel_def s1 s2)
  from kr have m: "M (rng_manager k1) (rng_manager k2)"
    by (simp add: kernel_rel_def)
  from get m have g: "M (get_stream L (rng_manager k1) agent_id) (get_stream L (rng_manager k2) agent_id)"
    by blast
  from draw g have d: "rel_option (\<lambda>r1 r2. fst r1 = fst r2 \<and> M (snd r1) (snd r2))
      (handle_random L (get_stream L (rng_manager k1) agent_id) agent_id)
      (handle_random L (get_stream L (rng_manager k2) agent_id) agent_id)"
    by blast
  show ?thesis
  proof (cases "handle_random L (get_stream L (rng_manager k1) agent_id) agent_id")
    case None
    with d have "handle_random L (get_stream L (rng_manager k2) agent_id) agent_id = None"
      by (cases "handle_random L (get_stream L (rng_manager k2) agent_id) agent_id") auto
    with None kr g show ?thesis
      by (simp add: act_def s1 s2 w get_rng_def state_rel_def kernel_rel_def)
  next
    case (Some r1)
    with d obtain r2 where r2: "handle_random L (get_stream L (rng_manager k2) agent_id) agent_id = Some r2"
      and v: "fst r1 = fst r2" and p: "M (snd r1) (snd r2)"
      by (cases "handle_random L (get_stream L (rng_manager k2) agent_id) agent_id") auto
    from Some r2 v p kr show ?thesis
      by (cases r1; cases r2)
        (simp add: act_def s1 s2 w get_rng_def state_rel_def kernel_rel_def)
  qed
qed

lemma CounterAgent_rel:
  assumes get: "\<forall>m1 m2 name. M m1 m2 \<longrightarrow> M (get_stream L m1 name) (get_stream L m2 name)"
      and draw: "\<forall>m1 m2 name. M m1 m2 \<longrightarrow>
                  rel_option (\<lambda>r1 r2. fst r1 = fst r2 \<and> M (snd r1) (snd r2))
                    (handle_random L m1 name) (handle_random L m2 name)"
      and r: "state_rel M f s1 s2"
  shows "outcome_rel (state_rel M f)
           (invoke (\<lambda>e. CounterAgent L (name1 e)) e ph s1)
           (invoke (\<lambda>e. CounterAgent L (name1 e)) e ph s2)"
  using act_rel[OF get draw r] by (simp add: invoke_def CounterAgent_def)

lemma act_lib0:
  "act lib0 agent_id (k, w)
     = (let m = get_stream lib0 (rng_manager k) agent_id
        in case map_of (streams m) agent_id of
             None \<Rightarrow> Raised (KeyError agent_id) (k\<lparr>rng_manager := m\<rparr>, w)
           | Some s \<Rightarrow>
               Returned (k\<lparr>rng_manager := m\<lparr>streams := AList.update agent_id (s\<lparr>rng := Suc (rng s)\<rparr>) (streams m)\<rparr>\<rparr>,
                 AList.update agent_id ((case map_of w agent_id of None \<Rightarrow> 0 | Some c \<Rightarrow> c) + rng s) w))"
  by (simp add: act_def get_rng_def handle_random_def stream_random_def lib0_simps Let_def
      split: option.splits)

lemma run_two:
  "run ent 2 s =
     (case step ent s of
        Raised x s1 \<Rightarrow> Raised x s1
      | Returned s1 \<Rightarrow> (case step ent s1 of Raised x s2 \<Rightarrow> Raised x s2 | Returned s2 \<Rightarrow> Returned s2))"
  by (simp add: run_def numeral_2_eq_2 split: outcome.splits)

lemma run1_eq:
  "run1 = Returned
        (\<lparr>time = 2,
           rng_manager = \<lparr>master_seed = 123, master = 125,
             streams = [(''a0'', \<lparr>seed = 121, rng = 123\<rparr>), (''a1'', \<lparr>seed = 126, rng = 128\<rparr>)]\<rparr>,
           entities = [(''a0'', 1), (''a1'', 2)],
           phases = [''perceive'', ''act'', ''commit''],
           phase_registrations = [(''perceive'', [(''a0'', 1), (''a1'', 2)]), (''act'', []), (''commit'', [])]\<rparr>,
         [(''a0'', 243), (''a1'', 253)])"
  by (simp add: run1_def scenario_def Kernel_def RNGManager_def register_def run_two
      step_def invoke_def agents1_def CounterAgent_def act_lib0 get_stream_def derive_seed_def
      RNGStream_def lib0_simps)

lemma run2_eq:
  "run2 = Returned
        (\<lparr>time = 2,
           rng_manager = \<lparr>master_seed = 123, master = 125,
             streams = [(''a0'', \<lparr>seed = 121, rng = 123\<rparr>), (''a1'', \<lparr>seed = 126, rng = 128\<rparr>)]\<rparr>,
           entities = [(''a0'', 11), (''a1'', 12)],
           phases = [''perceive'', ''act'', ''commit''],
           phase_registrations = [(''perceive'', [(''a0'', 11), (''a1'', 12)]), (''act'', []), (''commit'', [])]\<rparr>,
         [(''a0'', 243), (''a1'', 253)])"
  by (simp add: run2_def scenario_def Kernel_def RNGManager_def register_def run_two
      step_def invoke_def agents2_def CounterAgent_def act_lib0 get_stream_def derive_seed_def
      RNGStream_def lib0_simps)

lemma eq_get: "\<forall>m1 m2 name. m1 = m2 \<longrightarrow> get_stream L m1 name = get_stream L m2 name"
  by simp

lemma eq_draw:
  "\<forall>m1 m2 name. m1 = m2 \<longrightarrow>
     rel_option (\<lambda>r1 r2. fst r1 = fst r2 \<and> snd r1 = snd r2)
       (handle_random L m1 name) (handle_random L m2 name)"
  by (simp add: option.rel_refl)

text \<open>
  A scenario does not depend on the identity of the entity objects. Take two runs of the
  same scenario: same library, seed, phase list, registration sequence and number of
  ticks, same initial entity-owned state, but entity objects created anew (\<open>f\<close> maps the
  handles of the first run to those of the second, one to one), whose hooks behave
  alike on kernels that differ only in those handles. Then the two runs agree: both
  return or both raise the same exception, the logical time is the same, the
  entity-owned state is the same, and the managers are equal. That two runs on the very
  same arguments agree is no theorem of this development: a run is a function of its
  arguments here.
\<close>

lemma scenario_handle_renaming:
  assumes f: "inj f"
      and hooks: "\<forall>e ph s1 s2. state_rel (=) f s1 s2 \<longrightarrow>
            outcome_rel (state_rel (=) f) (invoke ent1 e ph s1) (invoke ent2 (f e) ph s2)"
  shows "outcome_rel (state_rel (=) f)
           (scenario L sd phs regs ent1 n w)
           (scenario L sd phs (map (\<lambda>(i, e, ph). (i, f e, ph)) regs) ent2 n w)
       \<and> raised (scenario L sd phs regs ent1 n w)
           = raised (scenario L sd phs (map (\<lambda>(i, e, ph). (i, f e, ph)) regs) ent2 n w)
       \<and> time (fst (state_of (scenario L sd phs regs ent1 n w)))
           = time (fst (state_of (scenario L sd phs (map (\<lambda>(i, e, ph). (i, f e, ph)) regs) ent2 n w)))
       \<and> snd (state_of (scenario L sd phs regs ent1 n w))
           = snd (state_of (scenario L sd phs (map (\<lambda>(i, e, ph). (i, f e, ph)) regs) ent2 n w))
       \<and> draws L (rng_manager (fst (state_of (scenario L sd phs regs ent1 n w)))) name j
           = draws L (rng_manager (fst (state_of
               (scenario L sd phs (map (\<lambda>(i, e, ph). (i, f e, ph)) regs) ent2 n w)))) name j"
proof -
  let ?regs2 = "map (\<lambda>(i, e, ph). (i, f e, ph)) regs"
  note h = register_all_rel[OF f Kernel_rel[of f L sd phs], of regs]
  have rel: "outcome_rel (state_rel (=) f)
           (scenario L sd phs regs ent1 n w) (scenario L sd phs ?regs2 ent2 n w)"
  proof (cases "register_all (Kernel L sd phs) regs")
    case (Returned t1)
    with h obtain t2 where t2: "register_all (Kernel L sd phs) ?regs2 = Returned t2"
      and r: "kernel_rel (=) f t1 t2"
      by (cases "register_all (Kernel L sd phs) ?regs2") auto
    from r have "state_rel (=) f (t1, w) (t2, w)" by (simp add: state_rel_def)
    from run_loop_rel[OF hooks this] Returned t2 show ?thesis
      by (simp add: scenario_def run_def)
  next
    case (Raised x t1)
    with h obtain t2 where t2: "register_all (Kernel L sd phs) ?regs2 = Raised x t2"
      and r: "kernel_rel (=) f t1 t2"
      by (cases "register_all (Kernel L sd phs) ?regs2") auto
    from r Raised t2 show ?thesis
      by (simp add: scenario_def state_rel_def)
  qed
  from outcome_rel_state[OF rel] rel show ?thesis by simp
qed

lemma scenario_handle_renaming_instance:
  "inj (\<lambda>e::nat. e + 10)
   \<and> raised run1 = None \<and> raised run2 = None
   \<and> time (fst (state_of run1)) = 2 \<and> time (fst (state_of run2)) = 2
   \<and> snd (state_of run1) = [(''a0'', 243), (''a1'', 253)]
   \<and> snd (state_of run1) = snd (state_of run2)
   \<and> draws lib0 (rng_manager (fst (state_of run1))) ''a0'' (Suc (Suc 0)) = [123, 124]
   \<and> draws lib0 (rng_manager (fst (state_of run1))) ''a0'' (Suc (Suc 0))
       = draws lib0 (rng_manager (fst (state_of run2))) ''a0'' (Suc (Suc 0))"
proof -
  let ?f = "\<lambda>e::nat. e + 10"
  have f: "inj ?f"
    by (simp add: inj_def)
  have a2: "agents2 (?f e) = agents1 e" for e
    by (simp add: agents1_def agents2_def)
  have a1: "agents1 = (\<lambda>e. CounterAgent lib0 (if e = 1 then ''a0'' else ''a1''))"
    by (rule ext) (simp add: agents1_def)
  have hooks: "\<forall>e ph s1 s2. state_rel (=) ?f s1 s2 \<longrightarrow>
      outcome_rel (state_rel (=) ?f) (invoke agents1 e ph s1) (invoke agents2 (?f e) ph s2)"
  proof (intro allI impI)
    fix e ph and s1 s2 :: "(nat, nat) kernel \<times> (string \<times> nat) list"
    assume r: "state_rel (=) ?f s1 s2"
    have i2: "invoke agents2 (?f e) ph s2 = invoke agents1 e ph s2"
      unfolding invoke_def a2 by (rule refl)
    have "outcome_rel (state_rel (=) ?f) (invoke agents1 e ph s1) (invoke agents1 e ph s2)"
      unfolding a1 by (rule CounterAgent_rel[OF eq_get eq_draw r])
    then show "outcome_rel (state_rel (=) ?f) (invoke agents1 e ph s1) (invoke agents2 (?f e) ph s2)"
      by (simp only: i2)
  qed
  note t = scenario_handle_renaming[OF f hooks, of lib0 123 None "[(''a0'', 1, None), (''a1'', 2, None)]" 2 "[]"
      "''a0''" "Suc (Suc 0)"]
  from t have c1: "raised run1 = raised run2"
    and c2: "time (fst (state_of run1)) = time (fst (state_of run2))"
    and c3: "snd (state_of run1) = snd (state_of run2)"
    and c4: "draws lib0 (rng_manager (fst (state_of run1))) ''a0'' (Suc (Suc 0))
       = draws lib0 (rng_manager (fst (state_of run2))) ''a0'' (Suc (Suc 0))"
    by (simp_all add: run1_def run2_def)
  have e1: "raised run1 = None" "time (fst (state_of run1)) = 2"
    "snd (state_of run1) = [(''a0'', 243), (''a1'', 253)]"
    by (simp_all add: run1_eq)
  have e2: "draws lib0 (rng_manager (fst (state_of run1))) ''a0'' (Suc (Suc 0)) = [123, 124]"
    by (simp add: run1_eq get_stream_def handle_random_def stream_random_def lib0_simps)
  from c1 e1(1) have r2: "raised run2 = None" by simp
  from c2 e1(2) have t2: "time (fst (state_of run2)) = 2" by simp
  show ?thesis
    by (intro conjI f e1 r2 t2 c3 e2 c4)
qed

subsection \<open>Snapshot and restore\<close>

lemma set_streams_fresh:
  assumes rt: "\<forall>g g0. setstate L g (getstate L g0) = Returned g0"
  shows "distinct (map fst al) \<Longrightarrow> set (map fst al) \<inter> set (map fst (streams m)) = {} \<Longrightarrow>
    set_streams L m (map (\<lambda>(name, s). (name, stream_get_state L s)) al)
      = Returned (m\<lparr>streams := streams m @ map (\<lambda>(name, s). (name, \<lparr>seed = 0, rng = rng s\<rparr>)) al\<rparr>)"
proof (induction al arbitrary: m)
  case Nil
  then show ?case by simp
next
  case (Cons a al)
  obtain name s where a: "a = (name, s)" by (cases a)
  from Cons.prems have new: "name \<notin> fst ` set (streams m)"
    by (auto simp: a)
  then have none: "map_of (streams m) name = None"
    by (simp add: map_of_eq_None_iff)
  have set1: "stream_set_state L (RNGStream L 0) (stream_get_state L s)
      = Returned \<lparr>seed = 0, rng = rng s\<rparr>"
    using rt by (simp add: stream_set_state_def stream_get_state_def RNGStream_def)
  let ?m1 = "m\<lparr>streams := streams m @ [(name, \<lparr>seed = 0, rng = rng s\<rparr>)]\<rparr>"
  have d: "distinct (map fst al)" using Cons.prems by simp
  have disj: "set (map fst al) \<inter> set (map fst (streams ?m1)) = {}"
    using Cons.prems by (auto simp: a)
  from Cons.IH[OF d disj] none set1 new show ?case
    by (simp add: a update_append_new)
qed

lemma restore_snapshot:
  assumes rt: "\<forall>g g0. setstate L g (getstate L g0) = Returned g0"
      and pk: "\<forall>d. loads L (dumps L d) = Inr d"
      and names: "distinct (map fst (streams (rng_manager k1)))"
      and fresh: "streams (rng_manager k2) = []"
  shows "restore L k2 (snapshot L k1)
    = Returned (k2\<lparr>time := time k1, phases := phases k1,
        rng_manager := (rng_manager k2)\<lparr>master := master (rng_manager k1),
          streams := map (\<lambda>(name, s). (name, \<lparr>seed = 0, rng = rng s\<rparr>)) (streams (rng_manager k1))\<rparr>\<rparr>)"
proof -
  let ?m = "(rng_manager k2)\<lparr>master := master (rng_manager k1)\<rparr>"
  have "set (map fst (streams (rng_manager k1))) \<inter> set (map fst (streams ?m)) = {}"
    using fresh by simp
  from set_streams_fresh[OF rt names this] fresh
  have "set_streams L ?m (map (\<lambda>(name, s). (name, stream_get_state L s)) (streams (rng_manager k1)))
      = Returned (?m\<lparr>streams := map (\<lambda>(name, s). (name, \<lparr>seed = 0, rng = rng s\<rparr>)) (streams (rng_manager k1))\<rparr>)"
    by simp
  then show ?thesis
    using rt pk by (simp add: restore_def snapshot_def manager_set_state_def manager_get_state_def)
qed

lemma positions_reseeded:
  "map (\<lambda>(name, s). (name, rng s)) (map (\<lambda>(name, s). (name, \<lparr>seed = 0, rng = rng s\<rparr>)) al)
     = map (\<lambda>(name, s). (name, rng s)) al"
  by (induction al) auto

lemma outcome_rel_positions:
  assumes "outcome_rel (state_rel same_positions f) o1 o2"
  shows "raised o1 = raised o2
       \<and> time (fst (state_of o1)) = time (fst (state_of o2))
       \<and> same_positions (rng_manager (fst (state_of o1))) (rng_manager (fst (state_of o2)))
       \<and> snd (state_of o1) = snd (state_of o2)"
  using assms by (cases o1; cases o2) (auto simp: state_rel_def kernel_rel_def)

lemma kernel_after_eq:
  "kernel_after = \<lparr>time = 2,
     rng_manager = \<lparr>master_seed = 123, master = 125,
       streams = [(''a0'', \<lparr>seed = 121, rng = 123\<rparr>), (''a1'', \<lparr>seed = 126, rng = 128\<rparr>)]\<rparr>,
     entities = [(''a0'', 1), (''a1'', 2)],
     phases = [''perceive'', ''act'', ''commit''],
     phase_registrations = [(''perceive'', [(''a0'', 1), (''a1'', 2)]), (''act'', []), (''commit'', [])]\<rparr>"
  by (simp add: kernel_after_def run1_eq)

lemma kernel_fresh_eq:
  "kernel_fresh = \<lparr>time = 0,
     rng_manager = \<lparr>master_seed = 999, master = 999, streams = []\<rparr>,
     entities = [(''a0'', 11), (''a1'', 12)],
     phases = [''perceive'', ''act'', ''commit''],
     phase_registrations = [(''perceive'', [(''a0'', 11), (''a1'', 12)]), (''act'', []), (''commit'', [])]\<rparr>"
  by (simp add: kernel_fresh_def Kernel_def RNGManager_def register_def lib0_simps)

lemma run_after:
  "run agents1 2 (kernel_after, [(''a0'', 243), (''a1'', 253)])
     = Returned
        (\<lparr>time = 4,
           rng_manager = \<lparr>master_seed = 123, master = 125,
             streams = [(''a0'', \<lparr>seed = 121, rng = 125\<rparr>), (''a1'', \<lparr>seed = 126, rng = 130\<rparr>)]\<rparr>,
           entities = [(''a0'', 1), (''a1'', 2)],
           phases = [''perceive'', ''act'', ''commit''],
           phase_registrations = [(''perceive'', [(''a0'', 1), (''a1'', 2)]), (''act'', []), (''commit'', [])]\<rparr>,
         [(''a0'', 490), (''a1'', 510)])"
  by (simp add: kernel_after_eq run_two step_def invoke_def agents1_def CounterAgent_def
      act_lib0 get_stream_def)

lemma positions_get: "\<forall>m1 m2 name. same_positions m1 m2 \<longrightarrow>
    same_positions (get_stream L m1 name) (get_stream L m2 name)"
  using get_stream_positions by blast

lemma positions_draw:
  "\<forall>m1 m2 name. same_positions m1 m2 \<longrightarrow>
     rel_option (\<lambda>r1 r2. fst r1 = fst r2 \<and> same_positions (snd r1) (snd r2))
       (handle_random L m1 name) (handle_random L m2 name)"
  using handle_random_positions by blast

text \<open>
  C2. Snapshot round trip. The library is taken to round-trip: \<open>setstate\<close> of a token
  that \<open>getstate\<close> produced installs the state the token was taken from, and \<open>loads\<close>
  returns what \<open>dumps\<close> was given. Let \<open>k1\<close> be a kernel (after any number of ticks; the
  names in its stream dictionary are distinct, as the keys of a dictionary are) and
  \<open>k2\<close> a fresh kernel: no stream yet, any seed, any time, and the same entities
  registered in the same order and phases (as new objects, \<open>f\<close> mapping old handles to
  new ones). Then restoring the snapshot of \<open>k1\<close> into \<open>k2\<close> returns, and running the
  original and the restored kernel for \<open>m\<close> further ticks from the same entity-owned
  state, with hooks that behave alike on kernels that differ only in handles and seed
  fields, gives the same outcome, the same logical time, the same entity-owned state
  and the same draws from every stream name.
\<close>

theorem snapshot_round_trip:
  assumes rt: "\<forall>g g0. setstate L g (getstate L g0) = Returned g0"
      and pk: "\<forall>d. loads L (dumps L d) = Inr d"
      and hooks: "\<forall>e ph s1 s2. state_rel same_positions f s1 s2 \<longrightarrow>
            outcome_rel (state_rel same_positions f) (invoke ent1 e ph s1) (invoke ent2 (f e) ph s2)"
      and names: "distinct (map fst (streams (rng_manager k1)))"
      and fresh: "streams (rng_manager k2) = []"
      and ents: "entities k2 = map (apsnd f) (entities k1)"
      and regs: "phase_registrations k2 = map (apsnd (map (apsnd f))) (phase_registrations k1)"
  shows "raised (restore L k2 (snapshot L k1)) = None
       \<and> outcome_rel (state_rel same_positions f)
           (run ent1 m (k1, w))
           (run ent2 m (state_of (restore L k2 (snapshot L k1)), w))
       \<and> raised (run ent1 m (k1, w))
           = raised (run ent2 m (state_of (restore L k2 (snapshot L k1)), w))
       \<and> time (fst (state_of (run ent1 m (k1, w))))
           = time (fst (state_of (run ent2 m (state_of (restore L k2 (snapshot L k1)), w))))
       \<and> snd (state_of (run ent1 m (k1, w)))
           = snd (state_of (run ent2 m (state_of (restore L k2 (snapshot L k1)), w)))
       \<and> draws L (rng_manager (fst (state_of (run ent1 m (k1, w))))) name j
           = draws L (rng_manager (fst (state_of
               (run ent2 m (state_of (restore L k2 (snapshot L k1)), w))))) name j"
proof -
  let ?k3 = "state_of (restore L k2 (snapshot L k1))"
  note r = restore_snapshot[OF rt pk names fresh]
  have ok: "raised (restore L k2 (snapshot L k1)) = None"
    by (simp add: r)
  have rel0: "state_rel same_positions f (k1, w) (?k3, w)"
    by (auto simp: r state_rel_def kernel_rel_def same_positions_def positions_def ents regs
        split: prod.splits)
  have rel: "outcome_rel (state_rel same_positions f) (run ent1 m (k1, w)) (run ent2 m (?k3, w))"
    using run_loop_rel[OF hooks rel0] by (simp add: run_def)
  from outcome_rel_positions[OF rel] draws_positions[of _ _ L name j] ok rel
  show ?thesis by blast
qed

theorem snapshot_round_trip_witness:
  "distinct (map fst (streams (rng_manager kernel_after)))
   \<and> streams (rng_manager kernel_fresh) = []
   \<and> entities kernel_fresh = map (apsnd (\<lambda>e. e + 10)) (entities kernel_after)
   \<and> phase_registrations kernel_fresh
       = map (apsnd (map (apsnd (\<lambda>e. e + 10)))) (phase_registrations kernel_after)
   \<and> master_seed (rng_manager kernel_after) = 123
   \<and> master_seed (rng_manager kernel_fresh) = 999
   \<and> raised (restore lib0 kernel_fresh (snapshot lib0 kernel_after)) = None
   \<and> time (fst (state_of (run agents1 2 (kernel_after, [(''a0'', 243), (''a1'', 253)])))) = 4
   \<and> time (fst (state_of (run agents2 2 (kernel_restored, [(''a0'', 243), (''a1'', 253)])))) = 4
   \<and> snd (state_of (run agents1 2 (kernel_after, [(''a0'', 243), (''a1'', 253)])))
       = [(''a0'', 490), (''a1'', 510)]
   \<and> snd (state_of (run agents2 2 (kernel_restored, [(''a0'', 243), (''a1'', 253)])))
       = [(''a0'', 490), (''a1'', 510)]
   \<and> draws lib0 (rng_manager (fst (state_of
         (run agents1 2 (kernel_after, [(''a0'', 243), (''a1'', 253)]))))) ''a0'' (Suc (Suc 0))
       = [125, 126]
   \<and> draws lib0 (rng_manager (fst (state_of
         (run agents2 2 (kernel_restored, [(''a0'', 243), (''a1'', 253)]))))) ''a0'' (Suc (Suc 0))
       = [125, 126]"
proof -
  let ?f = "\<lambda>e::nat. e + 10"
  let ?w = "[(''a0'', 243::nat), (''a1'', 253)]"
  let ?o1 = "run agents1 2 (kernel_after, ?w)"
  let ?o2 = "run agents2 2 (kernel_restored, ?w)"
  have rt: "\<forall>g g0. setstate lib0 g (getstate lib0 g0) = Returned g0"
    by (simp add: lib0_simps)
  have pk: "\<forall>d. loads lib0 (dumps lib0 d) = Inr d"
    by (simp add: lib0_simps)
  have a2: "agents2 (?f e) = agents1 e" for e
    by (simp add: agents1_def agents2_def)
  have a1: "agents1 = (\<lambda>e. CounterAgent lib0 (if e = 1 then ''a0'' else ''a1''))"
    by (rule ext) (simp add: agents1_def)
  have hooks: "\<forall>e ph s1 s2. state_rel same_positions ?f s1 s2 \<longrightarrow>
      outcome_rel (state_rel same_positions ?f) (invoke agents1 e ph s1) (invoke agents2 (?f e) ph s2)"
  proof (intro allI impI)
    fix e ph and s1 s2 :: "(nat, nat) kernel \<times> (string \<times> nat) list"
    assume r: "state_rel same_positions ?f s1 s2"
    have i2: "invoke agents2 (?f e) ph s2 = invoke agents1 e ph s2"
      unfolding invoke_def a2 by (rule refl)
    have "outcome_rel (state_rel same_positions ?f) (invoke agents1 e ph s1) (invoke agents1 e ph s2)"
      unfolding a1 by (rule CounterAgent_rel[OF positions_get positions_draw r])
    then show "outcome_rel (state_rel same_positions ?f)
        (invoke agents1 e ph s1) (invoke agents2 (?f e) ph s2)"
      by (simp only: i2)
  qed
  have names: "distinct (map fst (streams (rng_manager kernel_after)))"
    by (simp add: kernel_after_eq)
  have fresh: "streams (rng_manager kernel_fresh) = []"
    by (simp add: kernel_fresh_eq)
  have ents: "entities kernel_fresh = map (apsnd ?f) (entities kernel_after)"
    by (simp add: kernel_fresh_eq kernel_after_eq)
  have regs: "phase_registrations kernel_fresh
       = map (apsnd (map (apsnd ?f))) (phase_registrations kernel_after)"
    by (simp add: kernel_fresh_eq kernel_after_eq)
  have seeds: "master_seed (rng_manager kernel_after) = 123"
    "master_seed (rng_manager kernel_fresh) = 999"
    by (simp_all add: kernel_fresh_eq kernel_after_eq)
  note t = snapshot_round_trip[OF rt pk hooks names fresh ents regs, of 2 ?w "''a0''" "Suc (Suc 0)"]
  from t have c0: "raised (restore lib0 kernel_fresh (snapshot lib0 kernel_after)) = None"
    and c2: "time (fst (state_of ?o1)) = time (fst (state_of ?o2))"
    and c3: "snd (state_of ?o1) = snd (state_of ?o2)"
    and c4: "draws lib0 (rng_manager (fst (state_of ?o1))) ''a0'' (Suc (Suc 0))
       = draws lib0 (rng_manager (fst (state_of ?o2))) ''a0'' (Suc (Suc 0))"
    by (simp_all add: kernel_restored_def)
  have e1: "time (fst (state_of ?o1)) = 4" "snd (state_of ?o1) = [(''a0'', 490), (''a1'', 510)]"
    by (simp_all add: run_after)
  have e2: "draws lib0 (rng_manager (fst (state_of ?o1))) ''a0'' (Suc (Suc 0)) = [125, 126]"
    by (simp add: run_after get_stream_def handle_random_def stream_random_def lib0_simps)
  from c2 e1(1) have t2: "time (fst (state_of ?o2)) = 4" by simp
  from c3 e1(2) have w2: "snd (state_of ?o2) = [(''a0'', 490), (''a1'', 510)]" by simp
  from c4 e2 have d2: "draws lib0 (rng_manager (fst (state_of ?o2))) ''a0'' (Suc (Suc 0)) = [125, 126]"
    by simp
  show ?thesis
    by (intro conjI names fresh ents regs seeds c0 e1 t2 w2 e2 d2)
qed

end
